theory Spec2Isabelle
  imports Complex_Main "HOL-Library.AList" "HOL-Library.Word"
begin

section \<open>JavaScript numbers and strings\<close>

text \<open>
  A JavaScript number is an IEEE 754 binary64 value. \<open>Finite q\<close> is the double whose
  value is the rational \<open>q\<close>; the two zeros are one value here, since the program only
  adds, subtracts, halves, multiplies, takes absolute values and compares, and none of
  these tells \<^verbatim>\<open>+0\<close> from \<^verbatim>\<open>-0\<close>. Every arithmetic operation computes the exact
  result and rounds it: \<open>rnd q\<close> is the double nearest to \<open>q\<close>, the one with the even
  significand when two are equally near, and an infinity from \<open>2 ^ 1024 - 2 ^ 970\<close> on.
  \<open>expo a\<close> is the exponent of \<open>a\<close>, the largest \<open>e\<close> with \<open>2 ^ e \<le> a\<close>; the doubles
  near \<open>a\<close> are the multiples of \<open>2 ^ (e - 52)\<close>, and of \<open>2 ^ - 1074\<close> below
  \<open>2 ^ - 1022\<close>.
\<close>

datatype double = Finite rat | PosInf | NegInf | NaN

fun ilog2 :: "nat \<Rightarrow> nat" where
  "ilog2 n = (if n < 2 then 0 else Suc (ilog2 (n div 2)))"

declare ilog2.simps [simp del]

definition two_p :: "int \<Rightarrow> rat" where
  "two_p k = (if 0 \<le> k then 2 ^ nat k else 1 / 2 ^ nat (- k))"

definition expo :: "rat \<Rightarrow> int" where
  "expo a = (if 1 \<le> a then int (ilog2 (nat \<lfloor>a\<rfloor>))
             else - int (ilog2 (nat \<lceil>1 / a\<rceil> - 1)) - 1)"

definition round_half_even :: "rat \<Rightarrow> int" where
  "round_half_even x =
     (let n = \<lfloor>x\<rfloor>; d = x - of_int n
      in if d < 1 / 2 then n else if 1 / 2 < d then n + 1 else if even n then n else n + 1)"

definition rnd :: "rat \<Rightarrow> double" where
  "rnd x =
     (if x = 0 then Finite 0
      else
        (let e = max (expo \<bar>x\<bar>) (- 1022);
             ulp = two_p (e - 52);
             y = of_int (round_half_even (\<bar>x\<bar> / ulp)) * ulp
         in if two_p 1024 \<le> y then (if 0 < x then PosInf else NegInf)
            else Finite (if 0 < x then y else - y)))"

text \<open>
  The operators the program applies to numbers: unary minus, \<^verbatim>\<open>Math.abs\<close>, \<^verbatim>\<open>+\<close>, \<^verbatim>\<open>-\<close>,
  \<^verbatim>\<open>*\<close>, \<^verbatim>\<open>/ 2\<close> (the program divides by the literal 2 only) and \<^verbatim>\<open><\<close>; \<open>dle\<close> is
  \<^verbatim>\<open><=\<close>. A comparison with \<^verbatim>\<open>NaN\<close> is false.
\<close>

fun dneg :: "double \<Rightarrow> double" where
  "dneg (Finite x) = Finite (- x)"
| "dneg PosInf = NegInf"
| "dneg NegInf = PosInf"
| "dneg NaN = NaN"

fun dabs :: "double \<Rightarrow> double" where
  "dabs (Finite x) = Finite \<bar>x\<bar>"
| "dabs PosInf = PosInf"
| "dabs NegInf = PosInf"
| "dabs NaN = NaN"

fun dadd :: "double \<Rightarrow> double \<Rightarrow> double" where
  "dadd (Finite x) (Finite y) = rnd (x + y)"
| "dadd NaN b = NaN"
| "dadd a NaN = NaN"
| "dadd PosInf NegInf = NaN"
| "dadd NegInf PosInf = NaN"
| "dadd PosInf b = PosInf"
| "dadd NegInf b = NegInf"
| "dadd a PosInf = PosInf"
| "dadd a NegInf = NegInf"

definition dsub :: "double \<Rightarrow> double \<Rightarrow> double" where
  "dsub a b = dadd a (dneg b)"

fun dsign :: "double \<Rightarrow> int" where
  "dsign (Finite x) = (if 0 < x then 1 else if x < 0 then - 1 else 0)"
| "dsign PosInf = 1"
| "dsign NegInf = - 1"
| "dsign NaN = 0"

fun dmul :: "double \<Rightarrow> double \<Rightarrow> double" where
  "dmul (Finite x) (Finite y) = rnd (x * y)"
| "dmul a b =
     (if dsign a * dsign b = 0 then NaN
      else if 0 < dsign a * dsign b then PosInf else NegInf)"

fun dhalf :: "double \<Rightarrow> double" where
  "dhalf (Finite x) = rnd (x / 2)"
| "dhalf a = a"

fun dlt :: "double \<Rightarrow> double \<Rightarrow> bool" where
  "dlt (Finite x) (Finite y) = (x < y)"
| "dlt NaN b = False"
| "dlt a NaN = False"
| "dlt a NegInf = False"
| "dlt NegInf b = True"
| "dlt PosInf b = False"
| "dlt a PosInf = True"

fun dle :: "double \<Rightarrow> double \<Rightarrow> bool" where
  "dle (Finite x) (Finite y) = (x \<le> y)"
| "dle NaN b = False"
| "dle a NaN = False"
| "dle NegInf b = True"
| "dle a PosInf = True"
| "dle a b = False"

text \<open>
  A JavaScript string is a sequence of UTF-16 code units; \<open>utf16 s\<close> is the string of the
  8-bit characters of \<open>s\<close>, each taken as the code unit of the same number.
  \<^verbatim>\<open>String.prototype.trim\<close> removes the code units of \<^verbatim>\<open>WhiteSpace\<close> and
  \<^verbatim>\<open>LineTerminator\<close> from both ends: tab, line feed, vertical tab, form feed, carriage
  return, space, no-break space, the byte order mark, the line and paragraph
  separators, and the other space separators of Unicode.
\<close>

type_synonym jsstring = "16 word list"

definition utf16 :: "string \<Rightarrow> jsstring" where
  "utf16 s = map (\<lambda>c. of_nat (of_char c)) s"

definition isWhiteSpace :: "16 word \<Rightarrow> bool" where
  "isWhiteSpace c \<longleftrightarrow>
     c \<in> set [0x0009, 0x000A, 0x000B, 0x000C, 0x000D, 0x0020, 0x00A0, 0x1680,
       0x2000, 0x2001, 0x2002, 0x2003, 0x2004, 0x2005, 0x2006, 0x2007, 0x2008, 0x2009,
       0x200A, 0x2028, 0x2029, 0x202F, 0x205F, 0x3000, 0xFEFF]"

definition trim :: "jsstring \<Rightarrow> jsstring" where
  "trim s = rev (dropWhile isWhiteSpace (rev (dropWhile isWhiteSpace s)))"

section \<open>The main process: the table of pseudo-terminal sessions\<close>

text \<open>
  The main process keeps \<^verbatim>\<open>ptyProcesses\<close>, a JavaScript \<^verbatim>\<open>Map\<close> from terminal ids to
  entries \<^verbatim>\<open>{ pty, webContents }\<close>, and the counter \<^verbatim>\<open>terminalIdCounter\<close>. A \<^verbatim>\<open>Map\<close>
  keeps its keys in insertion order, so it is an association list here: \<open>map_of\<close> is
  \<^verbatim>\<open>get\<close>, \<open>AList.update\<close> is \<^verbatim>\<open>set\<close> and \<open>AList.delete\<close> is \<^verbatim>\<open>delete\<close>.

  What the operating system and the libraries decide is a parameter of the model, the
  record \<open>env\<close>: the home directory, whether \<^verbatim>\<open>pty.spawn\<close> succeeds (and with which
  process id), what the \<^verbatim>\<open>lsof\<close> pipeline prints for a process id (or that
  \<^verbatim>\<open>execSync\<close> throws), whether a window's \<^verbatim>\<open>webContents\<close> is destroyed, and, for the
  renderer, the geometry the browser reports. The counters are JavaScript numbers that
  only ever count up from 0 by one; they are natural numbers here (the model covers
  runs of fewer than \<open>2 ^ 53\<close> allocations, where a double counts exactly).
\<close>

datatype error = SpawnError | TypeError

record rect =
  rect_left :: double
  rect_top :: double
  rect_width :: double
  rect_height :: double

record env =
  homedir :: jsstring
  spawn :: "jsstring \<Rightarrow> nat option"
  lsof :: "nat \<Rightarrow> jsstring option"
  isDestroyed :: "nat \<Rightarrow> bool"
  fit :: "nat \<Rightarrow> int \<times> int"
  getBoundingClientRect :: "nat \<Rightarrow> rect"

record pty =
  pid :: nat
  cwd :: jsstring
  cols :: int
  rows :: int
  written :: "jsstring list"

record entry =
  pty :: pty
  webContents :: "nat option"

datatype event = TerminalData nat jsstring | TerminalExit nat int

record main_state =
  ptyProcesses :: "(nat \<times> entry) list"
  terminalIdCounter :: nat
  killed :: "nat list"
  sent :: "(nat \<times> event) list"
  windowClosed :: bool

definition init_main :: main_state where
  "init_main = \<lparr>ptyProcesses = [], terminalIdCounter = 0, killed = [], sent = [],
     windowClosed = False\<rparr>"

text \<open>
  \<^verbatim>\<open>createPtyProcess(initialCwd, webContents)\<close>. The counter is incremented before
  \<^verbatim>\<open>pty.spawn\<close> runs, so a spawn that throws still uses an id up. \<^verbatim>\<open>initialCwd || homeDir\<close>
  takes the home directory for \<^verbatim>\<open>null\<close> and for the empty string.
\<close>

definition createPtyProcess ::
  "env \<Rightarrow> jsstring option \<Rightarrow> nat option \<Rightarrow> main_state \<Rightarrow> (error + nat) \<times> main_state" where
  "createPtyProcess e initialCwd wc s =
     (let homeDir = homedir e;
          terminalId = terminalIdCounter s + 1;
          s1 = s\<lparr>terminalIdCounter := terminalId\<rparr>;
          dir = (case initialCwd of None \<Rightarrow> homeDir
                 | Some c \<Rightarrow> if c = [] then homeDir else c)
      in case spawn e dir of
           None \<Rightarrow> (Inl SpawnError, s1)
         | Some p \<Rightarrow>
             (Inr terminalId,
              s1\<lparr>ptyProcesses := AList.update terminalId
                    \<lparr>pty = \<lparr>pid = p, cwd = dir, cols = 80, rows = 24, written = []\<rparr>,
                     webContents = wc\<rparr> (ptyProcesses s1)\<rparr>))"

text \<open>The callbacks \<^verbatim>\<open>ptyProcess.onData\<close> and \<^verbatim>\<open>ptyProcess.onExit\<close> of the session
  \<open>terminalId\<close>.\<close>

definition ptyOnData :: "env \<Rightarrow> nat \<Rightarrow> jsstring \<Rightarrow> main_state \<Rightarrow> main_state" where
  "ptyOnData e terminalId d s =
     (case map_of (ptyProcesses s) terminalId of
        None \<Rightarrow> s
      | Some en \<Rightarrow>
          (case webContents en of
             None \<Rightarrow> s
           | Some wc \<Rightarrow>
               if isDestroyed e wc then s
               else s\<lparr>sent := sent s @ [(wc, TerminalData terminalId d)]\<rparr>))"

definition ptyOnExit :: "env \<Rightarrow> nat \<Rightarrow> int \<Rightarrow> main_state \<Rightarrow> main_state" where
  "ptyOnExit e terminalId exitCode s =
     (let s1 = (case map_of (ptyProcesses s) terminalId of
                  None \<Rightarrow> s
                | Some en \<Rightarrow>
                    (case webContents en of
                       None \<Rightarrow> s
                     | Some wc \<Rightarrow>
                         if isDestroyed e wc then s
                         else s\<lparr>sent := sent s @ [(wc, TerminalExit terminalId exitCode)]\<rparr>))
      in s1\<lparr>ptyProcesses := AList.delete terminalId (ptyProcesses s1)\<rparr>)"

text \<open>The handlers of \<^verbatim>\<open>ipcMain\<close>.\<close>

definition terminal_create ::
  "env \<Rightarrow> jsstring option \<Rightarrow> nat \<Rightarrow> main_state \<Rightarrow> (error + nat) \<times> main_state" where
  "terminal_create e dir sender s = createPtyProcess e dir (Some sender) s"

text \<open>
  The handler of \<^verbatim>\<open>terminal-get-cwd\<close>. \<open>lsof e p\<close> is what \<^verbatim>\<open>execSync\<close> returns for the
  pipeline on process \<open>p\<close>, decoded as UTF-8, and \<open>None\<close> when it throws; \<^verbatim>\<open>cwd || null\<close>
  gives \<^verbatim>\<open>null\<close> for the empty string.
\<close>

definition terminal_get_cwd :: "env \<Rightarrow> nat \<Rightarrow> main_state \<Rightarrow> jsstring option" where
  "terminal_get_cwd e terminalId s =
     (case map_of (ptyProcesses s) terminalId of
        None \<Rightarrow> None
      | Some en \<Rightarrow>
          (case lsof e (pid (pty en)) of
             None \<Rightarrow> None
           | Some output \<Rightarrow> (let c = trim output in if c = [] then None else Some c)))"

definition terminal_destroy :: "nat \<Rightarrow> main_state \<Rightarrow> main_state" where
  "terminal_destroy terminalId s =
     (case map_of (ptyProcesses s) terminalId of
        None \<Rightarrow> s
      | Some en \<Rightarrow>
          s\<lparr>killed := killed s @ [pid (pty en)],
            ptyProcesses := AList.delete terminalId (ptyProcesses s)\<rparr>)"

definition terminal_input :: "nat \<Rightarrow> jsstring \<Rightarrow> main_state \<Rightarrow> main_state" where
  "terminal_input terminalId d s =
     (case map_of (ptyProcesses s) terminalId of
        None \<Rightarrow> s
      | Some en \<Rightarrow>
          s\<lparr>ptyProcesses := AList.update terminalId
               (en\<lparr>pty := (pty en)\<lparr>written := written (pty en) @ [d]\<rparr>\<rparr>) (ptyProcesses s)\<rparr>)"

definition terminal_resize :: "nat \<Rightarrow> int \<Rightarrow> int \<Rightarrow> main_state \<Rightarrow> main_state" where
  "terminal_resize terminalId c r s =
     (case map_of (ptyProcesses s) terminalId of
        None \<Rightarrow> s
      | Some en \<Rightarrow>
          s\<lparr>ptyProcesses := AList.update terminalId
               (en\<lparr>pty := (pty en)\<lparr>cols := c, rows := r\<rparr>\<rparr>) (ptyProcesses s)\<rparr>)"

definition window_close :: "main_state \<Rightarrow> main_state" where
  "window_close s = s\<lparr>windowClosed := True\<rparr>"

definition window_all_closed :: "main_state \<Rightarrow> main_state" where
  "window_all_closed s =
     s\<lparr>killed := killed s @ map (\<lambda>(k, en). pid (pty en)) (ptyProcesses s),
       ptyProcesses := []\<rparr>"

text \<open>
  Everything that can happen in the main process, as one step function: a command
  from a renderer, a callback of a pseudo-terminal, or the application event that
  all windows are closed. \<open>run\<close> performs a sequence of such steps, each with the
  environment of its moment, and collects what every \<^verbatim>\<open>terminal-create\<close> returned.
\<close>

datatype main_op =
    Create "jsstring option" nat
  | GetCwd nat
  | Destroy nat
  | Input nat jsstring
  | Resize nat int int
  | PtyData nat jsstring
  | PtyExit nat int
  | WindowCloseOp
  | WindowAllClosed

fun main_step :: "env \<Rightarrow> main_op \<Rightarrow> main_state \<Rightarrow> (error + nat) option \<times> main_state" where
  "main_step e (Create dir sender) s =
     (let (r, s') = terminal_create e dir sender s in (Some r, s'))"
| "main_step e (GetCwd k) s = (None, s)"
| "main_step e (Destroy k) s = (None, terminal_destroy k s)"
| "main_step e (Input k d) s = (None, terminal_input k d s)"
| "main_step e (Resize k c r) s = (None, terminal_resize k c r s)"
| "main_step e (PtyData k d) s = (None, ptyOnData e k d s)"
| "main_step e (PtyExit k c) s = (None, ptyOnExit e k c s)"
| "main_step e WindowCloseOp s = (None, window_close s)"
| "main_step e WindowAllClosed s = (None, window_all_closed s)"

fun run :: "(env \<times> main_op) list \<Rightarrow> main_state \<Rightarrow> (error + nat) list \<times> main_state" where
  "run [] s = ([], s)"
| "run ((e, op) # ops) s =
     (let (r, s1) = main_step e op s;
          (rs, s2) = run ops s1
      in ((case r of None \<Rightarrow> [] | Some x \<Rightarrow> [x]) @ rs, s2))"

definition returned_ids :: "(error + nat) list \<Rightarrow> nat list" where
  "returned_ids rs = concat (map (\<lambda>r. case r of Inl _ \<Rightarrow> [] | Inr k \<Rightarrow> [k]) rs)"

definition ids_bounded :: "main_state \<Rightarrow> bool" where
  "ids_bounded s = (\<forall>k \<in> fst ` set (ptyProcesses s). k \<le> terminalIdCounter s)"

section \<open>The renderer: panes, tabs and the layout tree\<close>

text \<open>
  \<^verbatim>\<open>PaneManager\<close> keeps the \<^verbatim>\<open>Map\<close> \<^verbatim>\<open>panes\<close> (in creation order), \<^verbatim>\<open>paneIdCounter\<close> and
  the one \<^verbatim>\<open>focusedPaneId\<close> of the window; \<^verbatim>\<open>TabManager\<close> keeps the \<^verbatim>\<open>Map\<close> \<^verbatim>\<open>tabs\<close>,
  \<^verbatim>\<open>tabIdCounter\<close> and \<^verbatim>\<open>activeTabId\<close>. The layout tree is the DOM below
  \<^verbatim>\<open>#pane-container\<close>: a \<^verbatim>\<open>div.tab-content\<close> per tab, \<^verbatim>\<open>div.split-horizontal\<close> and
  \<^verbatim>\<open>div.split-vertical\<close> containers, \<^verbatim>\<open>div.split-divider\<close> elements and \<^verbatim>\<open>div.pane\<close>
  elements. A pane element carries its pane id (\<^verbatim>\<open>dataset.paneId\<close>), which stands for the
  reference \<^verbatim>\<open>pane.element\<close>; the value that \<^verbatim>\<open>tabs\<close> stores under a tab id holds that
  id again and references to the tab's two elements, so \<open>tabs\<close> is the list of its keys.

  Outside the model: the xterm.js objects apart from what \<^verbatim>\<open>terminal.write\<close> receives,
  the CSS classes \<^verbatim>\<open>focused\<close> and \<^verbatim>\<open>active\<close> (they follow \<open>focusedPaneId\<close> and
  \<open>activeTabId\<close>), inline styles, the tab strip, sounds and the other panels.
  \<^verbatim>\<open>ipcRenderer.send\<close> appends to \<open>outbox\<close>, the messages on their way to the main
  process; \<^verbatim>\<open>setTimeout\<close> appends the delay and the callback to \<open>timers\<close>. An \<^verbatim>\<open>async\<close>
  method runs to its end with no other event in between.
\<close>

datatype ipc =
    TerminalDestroy nat
  | TerminalInput nat jsstring
  | TerminalResize nat int int
  | WindowClose

datatype term_write = Bytes jsstring | ExitNotice int

record pane =
  paneId :: nat
  tabId :: nat
  terminalId :: nat
  terminal :: "term_write list"

datatype kind = SplitHorizontal | SplitVertical | TabContent nat

datatype elem = PaneEl nat | Divider bool | Container kind "elem list"

datatype container = ContentElement nat | SplitContainerOf nat

datatype timer = FitPane nat nat | RefitTab nat | ExitClose nat nat

record renderer =
  panes :: "(nat \<times> pane) list"
  paneIdCounter :: nat
  focusedPaneId :: "nat option"
  tabs :: "nat list"
  tabIdCounter :: nat
  activeTabId :: "nat option"
  paneContainer :: "elem list"
  timers :: "(nat \<times> timer) list"
  outbox :: "ipc list"
  senderId :: nat

record world =
  mainp :: main_state
  rend :: renderer

definition init_renderer :: "nat \<Rightarrow> renderer" where
  "init_renderer wc = \<lparr>panes = [], paneIdCounter = 0, focusedPaneId = None, tabs = [],
     tabIdCounter = 0, activeTabId = None, paneContainer = [], timers = [], outbox = [],
     senderId = wc\<rparr>"

definition init_world :: "nat \<Rightarrow> world" where
  "init_world wc = \<lparr>mainp = init_main, rend = init_renderer wc\<rparr>"

subsection \<open>The DOM operations the pane manager performs\<close>

fun isDivider :: "elem \<Rightarrow> bool" where
  "isDivider (Divider h) = True"
| "isDivider x = False"

fun isSplit :: "kind \<Rightarrow> bool" where
  "isSplit (TabContent t) = False"
| "isSplit k = True"

fun isContentOf :: "nat \<Rightarrow> elem \<Rightarrow> bool" where
  "isContentOf t (Container (TabContent t') cs) = (t = t')"
| "isContentOf t x = False"

text \<open>Whether the element of pane \<open>p\<close> is in the tree, that is, has a parent element.\<close>

fun attached :: "nat \<Rightarrow> elem \<Rightarrow> bool" where
  "attached p (PaneEl q) = (p = q)"
| "attached p (Divider h) = False"
| "attached p (Container k cs) = (\<exists>c \<in> set cs. attached p c)"

text \<open>
  \<^verbatim>\<open>splitPane\<close>: \<^verbatim>\<open>parentElement.insertBefore(splitContainer, pane.element)\<close>, then
  \<^verbatim>\<open>appendChild\<close> of the pane element and of the divider.
\<close>

fun wrapPane :: "nat \<Rightarrow> bool \<Rightarrow> elem \<Rightarrow> elem" where
  "wrapPane p h (PaneEl q) =
     (if q = p
      then Container (if h then SplitHorizontal else SplitVertical) [PaneEl q, Divider h]
      else PaneEl q)"
| "wrapPane p h (Divider b) = Divider b"
| "wrapPane p h (Container k cs) = Container k (map (wrapPane p h) cs)"

text \<open>
  \<^verbatim>\<open>container.appendChild(x)\<close>, where the container is the content element of a tab
  or the split container that holds the element of a pane.
\<close>

fun holds :: "container \<Rightarrow> kind \<Rightarrow> elem list \<Rightarrow> bool" where
  "holds (ContentElement t) k cs = (k = TabContent t)"
| "holds (SplitContainerOf p) k cs = (isSplit k \<and> PaneEl p \<in> set cs)"

fun appendChild :: "container \<Rightarrow> elem \<Rightarrow> elem \<Rightarrow> elem" where
  "appendChild c x (Container k cs) =
     Container k (map (appendChild c x) cs @ (if holds c k cs then [x] else []))"
| "appendChild c x y = y"

text \<open>An element after \<^verbatim>\<open>querySelectorAll('.split-divider')\<close> of an ancestor has
  removed every divider below it.\<close>

fun removeDividers :: "elem \<Rightarrow> elem" where
  "removeDividers (Container k cs) =
     Container k (filter (\<lambda>c. \<not> isDivider c) (map removeDividers cs))"
| "removeDividers x = x"

text \<open>
  \<^verbatim>\<open>closePane\<close> on the DOM, seen from the grandparent: what a child of it becomes. When
  the child is the parent of the pane element, the pane element is removed; a split
  container then loses all dividers below it, and is replaced by its one remaining child,
  removed when none remains, and kept when two or more remain.
\<close>

fun closeEl :: "nat \<Rightarrow> elem \<Rightarrow> elem list" where
  "closeEl p (Container k cs) =
     (if PaneEl p \<in> set cs then
        (let cs1 = remove1 (PaneEl p) cs in
         if isSplit k then
           (let remaining = filter (\<lambda>c. \<not> isDivider c) cs1 in
            if length remaining = 1 then map removeDividers remaining
            else if length remaining = 0 then []
            else [Container k (map removeDividers remaining)])
         else [Container k cs1])
      else [Container k (concat (map (closeEl p) cs))])"
| "closeEl p x = [x]"

definition closeDom :: "nat \<Rightarrow> elem list \<Rightarrow> elem list" where
  "closeDom p els =
     (if PaneEl p \<in> set els then remove1 (PaneEl p) els else concat (map (closeEl p) els))"

text \<open>\<^verbatim>\<open>pane.element.remove()\<close> alone, as \<^verbatim>\<open>destroyAllPanesInTab\<close> does it.\<close>

fun removeEl :: "nat \<Rightarrow> elem \<Rightarrow> elem" where
  "removeEl p (Container k cs) =
     Container k (filter (\<lambda>c. c \<noteq> PaneEl p) (map (removeEl p) cs))"
| "removeEl p x = x"

subsection \<open>PaneManager\<close>

definition send :: "ipc \<Rightarrow> renderer \<Rightarrow> renderer" where
  "send m r = r\<lparr>outbox := outbox r @ [m]\<rparr>"

definition getPanesForTab :: "nat \<Rightarrow> renderer \<Rightarrow> pane list" where
  "getPanesForTab t r = filter (\<lambda>p. tabId p = t) (map snd (panes r))"

definition getPaneCountForTab :: "nat \<Rightarrow> renderer \<Rightarrow> nat" where
  "getPaneCountForTab t r = length (getPanesForTab t r)"

definition focusPane :: "nat \<Rightarrow> renderer \<Rightarrow> renderer" where
  "focusPane p r =
     (case map_of (panes r) p of None \<Rightarrow> r | Some pn \<Rightarrow> r\<lparr>focusedPaneId := Some p\<rparr>)"

definition refitAllPanesInTab :: "nat \<Rightarrow> renderer \<Rightarrow> renderer" where
  "refitAllPanesInTab t r = r\<lparr>timers := timers r @ [(50, RefitTab t)]\<rparr>"

text \<open>
  \<^verbatim>\<open>closePane\<close>. \<^verbatim>\<open>parent.parentElement\<close> throws a \<^verbatim>\<open>TypeError\<close> when the pane's element
  has no parent, after the \<^verbatim>\<open>terminal-destroy\<close> message has been sent.
\<close>

definition closePane :: "nat \<Rightarrow> renderer \<Rightarrow> error option \<times> renderer" where
  "closePane p r =
     (case map_of (panes r) p of
        None \<Rightarrow> (None, r)
      | Some pn \<Rightarrow>
          (let r1 = send (TerminalDestroy (terminalId pn)) r in
           if \<not> (\<exists>c \<in> set (paneContainer r1). attached p c) then (Some TypeError, r1)
           else
             (let r2 = r1\<lparr>paneContainer := closeDom p (paneContainer r1),
                         panes := AList.delete p (panes r1)\<rparr>;
                  r3 = (if focusedPaneId r2 = Some p
                        then (case getPanesForTab (tabId pn) r2 of
                                [] \<Rightarrow> r2\<lparr>focusedPaneId := None\<rparr>
                              | q # qs \<Rightarrow> focusPane (paneId q) r2)
                        else r2)
              in (None, refitAllPanesInTab (tabId pn) r3))))"

text \<open>The handlers of \<^verbatim>\<open>terminal-data\<close> and \<^verbatim>\<open>terminal-exit\<close>: the first pane in the order
  of \<^verbatim>\<open>panes\<close> whose \<^verbatim>\<open>terminalId\<close> is the event's.\<close>

fun writeFirst :: "nat \<Rightarrow> term_write \<Rightarrow> (nat \<times> pane) list \<Rightarrow> (nat \<times> pane) list" where
  "writeFirst k x [] = []"
| "writeFirst k x ((i, pn) # ps) =
     (if terminalId pn = k then (i, pn\<lparr>terminal := terminal pn @ [x]\<rparr>) # ps
      else (i, pn) # writeFirst k x ps)"

definition terminal_data :: "nat \<Rightarrow> jsstring \<Rightarrow> renderer \<Rightarrow> renderer" where
  "terminal_data k d r = r\<lparr>panes := writeFirst k (Bytes d) (panes r)\<rparr>"

definition terminal_exit :: "nat \<Rightarrow> int \<Rightarrow> renderer \<Rightarrow> renderer" where
  "terminal_exit k exitCode r =
     (case find (\<lambda>(i, pn). terminalId pn = k) (panes r) of
        None \<Rightarrow> r
      | Some (i, pn) \<Rightarrow>
          r\<lparr>panes := writeFirst k (ExitNotice exitCode) (panes r),
            timers := timers r @ [(1000, ExitClose i (tabId pn))]\<rparr>)"

fun handle_event :: "event \<Rightarrow> renderer \<Rightarrow> renderer" where
  "handle_event (TerminalData k d) r = terminal_data k d r"
| "handle_event (TerminalExit k c) r = terminal_exit k c r"

text \<open>
  The callbacks given to \<^verbatim>\<open>setTimeout\<close>: the first fit of a new pane (\<open>FitPane\<close>, with the
  pane's id and the \<^verbatim>\<open>terminalId\<close> its closure holds), the refit of a tab's panes, and the
  check that follows a process exit by the grace period (\<open>ExitClose\<close>, with the pane's id
  and the \<^verbatim>\<open>tabId\<close> of the pane object its closure holds).
\<close>

definition sendResize :: "env \<Rightarrow> nat \<Rightarrow> nat \<Rightarrow> renderer \<Rightarrow> renderer" where
  "sendResize e p k r = send (TerminalResize k (fst (fit e p)) (snd (fit e p))) r"

fun fire :: "env \<Rightarrow> timer \<Rightarrow> renderer \<Rightarrow> error option \<times> renderer" where
  "fire e (FitPane p k) r = (None, sendResize e p k r)"
| "fire e (RefitTab t) r =
     (None, foldl (\<lambda>r' pn. sendResize e (paneId pn) (terminalId pn) r') r (getPanesForTab t r))"
| "fire e (ExitClose p t) r =
     (if getPaneCountForTab t r > 1 then closePane p r else (None, r))"

subsection \<open>Focus movement\<close>

datatype direction = Up | Down | Left | Right

record position =
  pos_paneId :: nat
  pos_x :: double
  pos_y :: double

text \<open>An element of \<^verbatim>\<open>panePositions\<close>: the centre of the pane's bounding rectangle.\<close>

definition panePosition :: "env \<Rightarrow> pane \<Rightarrow> position" where
  "panePosition e pn =
     (let rc = getBoundingClientRect e (paneId pn)
      in \<lparr>pos_paneId = paneId pn,
          pos_x = dadd (rect_left rc) (dhalf (rect_width rc)),
          pos_y = dadd (rect_top rc) (dhalf (rect_height rc))\<rparr>)"

text \<open>
  The loop of \<^verbatim>\<open>focusDirection\<close> over \<^verbatim>\<open>panePositions\<close>; the accumulator is
  \<^verbatim>\<open>bestCandidate\<close>, where \<open>None\<close> is \<^verbatim>\<open>null\<close>, and \<^verbatim>\<open>bestScore\<close>, which starts as
  \<^verbatim>\<open>Infinity\<close>.
\<close>

fun scan :: "direction \<Rightarrow> nat \<Rightarrow> position \<Rightarrow> position list \<Rightarrow>
    nat option \<times> double \<Rightarrow> nat option \<times> double" where
  "scan dir f current [] acc = acc"
| "scan dir f current (p # ps) (bestCandidate, bestScore) =
     (if pos_paneId p = f then scan dir f current ps (bestCandidate, bestScore)
      else
        (let dx = dsub (pos_x p) (pos_x current);
             dy = dsub (pos_y p) (pos_y current);
             (isValidDirection, distance) =
               (case dir of
                  Up \<Rightarrow> (dlt dy (Finite (- 10)),
                         dadd (dabs dy) (dmul (dabs dx) (Finite (1 / 2))))
                | Down \<Rightarrow> (dlt (Finite 10) dy,
                           dadd (dabs dy) (dmul (dabs dx) (Finite (1 / 2))))
                | Left \<Rightarrow> (dlt dx (Finite (- 10)),
                           dadd (dabs dx) (dmul (dabs dy) (Finite (1 / 2))))
                | Right \<Rightarrow> (dlt (Finite 10) dx,
                            dadd (dabs dx) (dmul (dabs dy) (Finite (1 / 2)))))
         in if isValidDirection \<and> dlt distance bestScore
            then scan dir f current ps (Some (pos_paneId p), distance)
            else scan dir f current ps (bestCandidate, bestScore)))"

definition focusDirection :: "env \<Rightarrow> direction \<Rightarrow> renderer \<Rightarrow> renderer" where
  "focusDirection e dir r =
     (case focusedPaneId r of
        None \<Rightarrow> r
      | Some f \<Rightarrow>
          if f = 0 then r
          else
            (case map_of (panes r) f of
               None \<Rightarrow> r
             | Some currentPane \<Rightarrow>
                 (let tabPanes = getPanesForTab (tabId currentPane) r in
                  if length tabPanes \<le> 1 then r
                  else
                    (let panePositions = map (panePosition e) tabPanes in
                     case find (\<lambda>p. pos_paneId p = f) panePositions of
                       None \<Rightarrow> r
                     | Some current \<Rightarrow>
                         (case fst (scan dir f current panePositions (None, PosInf)) of
                            None \<Rightarrow> r
                          | Some b \<Rightarrow> if b = 0 then r else focusPane b r)))))"

text \<open>\<^verbatim>\<open>findIndex\<close> gives \<open>- 1\<close> when no element satisfies the predicate.\<close>

fun findIndex :: "('a \<Rightarrow> bool) \<Rightarrow> 'a list \<Rightarrow> int" where
  "findIndex P [] = - 1"
| "findIndex P (x # xs) =
     (if P x then 0 else (let i = findIndex P xs in if i < 0 then - 1 else i + 1))"

definition focusNextPane :: "renderer \<Rightarrow> renderer" where
  "focusNextPane r =
     (case focusedPaneId r of
        None \<Rightarrow> r
      | Some f \<Rightarrow>
          if f = 0 then r
          else
            (case map_of (panes r) f of
               None \<Rightarrow> r
             | Some currentPane \<Rightarrow>
                 (let tabPanes = getPanesForTab (tabId currentPane) r in
                  if length tabPanes \<le> 1 then r
                  else
                    (let currentIndex = findIndex (\<lambda>p. paneId p = f) tabPanes;
                         nextIndex = (currentIndex + 1) mod int (length tabPanes)
                     in focusPane (paneId (tabPanes ! nat nextIndex)) r))))"

text \<open>\<^verbatim>\<open>destroyAllPanesInTab\<close>: \<open>destroyOne\<close> is the callback given to \<^verbatim>\<open>forEach\<close>.\<close>

definition destroyOne :: "renderer \<Rightarrow> pane \<Rightarrow> renderer" where
  "destroyOne r pn =
     (send (TerminalDestroy (terminalId pn)) r)
       \<lparr>paneContainer := map (removeEl (paneId pn)) (paneContainer r),
        panes := AList.delete (paneId pn) (panes r)\<rparr>"

definition destroyAllPanesInTab :: "nat \<Rightarrow> renderer \<Rightarrow> renderer" where
  "destroyAllPanesInTab t r = foldl destroyOne r (getPanesForTab t r)"

subsection \<open>TabManager\<close>

definition switchTab :: "nat \<Rightarrow> renderer \<Rightarrow> renderer" where
  "switchTab t r =
     (if t \<notin> set (tabs r) then r
      else
        (let r1 = r\<lparr>activeTabId := Some t\<rparr>;
             r2 = (case getPanesForTab t r1 of
                     [] \<Rightarrow> r1
                   | p # ps \<Rightarrow> focusPane (paneId p) r1)
         in refitAllPanesInTab t r2))"

definition closeTab :: "nat \<Rightarrow> renderer \<Rightarrow> renderer" where
  "closeTab t r =
     (if t \<notin> set (tabs r) then r
      else if length (tabs r) \<le> 1 then send WindowClose r
      else
        (let r1 = destroyAllPanesInTab t r;
             r2 = r1\<lparr>paneContainer := filter (\<lambda>c. \<not> isContentOf t c) (paneContainer r1),
                     tabs := removeAll t (tabs r1)\<rparr>
         in if activeTabId r2 = Some t
            then (case tabs r2 of [] \<Rightarrow> r2 | t' # ts \<Rightarrow> switchTab (last (tabs r2)) r2)
            else r2))"

subsection \<open>The calls that wait for the main process\<close>

text \<open>
  Messages between one renderer and the main process arrive in the order they were
  sent, so \<^verbatim>\<open>ipcRenderer.invoke\<close> first lets the main process handle what is still in
  \<open>outbox\<close>.
\<close>

fun main_handle :: "ipc \<Rightarrow> main_state \<Rightarrow> main_state" where
  "main_handle (TerminalDestroy k) s = terminal_destroy k s"
| "main_handle (TerminalInput k d) s = terminal_input k d s"
| "main_handle (TerminalResize k c r) s = terminal_resize k c r s"
| "main_handle WindowClose s = window_close s"

definition flush :: "world \<Rightarrow> world" where
  "flush w = \<lparr>mainp = foldl (\<lambda>s m. main_handle m s) (mainp w) (outbox (rend w)),
              rend = (rend w)\<lparr>outbox := []\<rparr>\<rparr>"

definition getPaneCwd :: "env \<Rightarrow> nat \<Rightarrow> world \<Rightarrow> jsstring option \<times> world" where
  "getPaneCwd e p w =
     (case map_of (panes (rend w)) p of
        None \<Rightarrow> (None, w)
      | Some pn \<Rightarrow> (let w1 = flush w in (terminal_get_cwd e (terminalId pn) (mainp w1), w1)))"

definition getFocusedPaneCwd :: "env \<Rightarrow> world \<Rightarrow> jsstring option \<times> world" where
  "getFocusedPaneCwd e w =
     (case focusedPaneId (rend w) of
        None \<Rightarrow> (None, w)
      | Some f \<Rightarrow> if f = 0 then (None, w) else getPaneCwd e f w)"

text \<open>
  \<^verbatim>\<open>createPane(tabId, container, cwd)\<close>. When \<^verbatim>\<open>terminal-create\<close> is rejected, the
  counter has moved and nothing else has happened in the renderer.
\<close>

definition createPane ::
  "env \<Rightarrow> nat \<Rightarrow> container \<Rightarrow> jsstring option \<Rightarrow> world \<Rightarrow> (error + nat) \<times> world" where
  "createPane e t c dir w =
     (let p = paneIdCounter (rend w) + 1;
          w1 = flush (w\<lparr>rend := (rend w)\<lparr>paneIdCounter := p\<rparr>\<rparr>);
          (res, m) = terminal_create e dir (senderId (rend w1)) (mainp w1)
      in case res of
           Inl err \<Rightarrow> (Inl err, w1\<lparr>mainp := m\<rparr>)
         | Inr k \<Rightarrow>
             (let r1 = rend w1;
                  r2 = r1\<lparr>paneContainer := map (appendChild c (PaneEl p)) (paneContainer r1),
                          panes := AList.update p
                            \<lparr>paneId = p, tabId = t, terminalId = k, terminal = []\<rparr> (panes r1),
                          timers := timers r1 @ [(50, FitPane p k)]\<rparr>
              in (Inr p, \<lparr>mainp = m, rend = focusPane p r2\<rparr>)))"

text \<open>
  \<^verbatim>\<open>splitPane(paneId, direction)\<close>: \<open>Inr None\<close> is the \<^verbatim>\<open>null\<close> returned for an unknown
  pane. \<^verbatim>\<open>parentElement.insertBefore\<close> throws a \<^verbatim>\<open>TypeError\<close> when the pane's element
  has no parent.
\<close>

definition splitPane ::
  "env \<Rightarrow> nat \<Rightarrow> jsstring \<Rightarrow> world \<Rightarrow> (error + nat option) \<times> world" where
  "splitPane e p direction w =
     (case map_of (panes (rend w)) p of
        None \<Rightarrow> (Inr None, w)
      | Some pn \<Rightarrow>
          (let (currentCwd, w1) = getPaneCwd e p w in
           if \<not> (\<exists>c \<in> set (paneContainer (rend w1)). attached p c) then (Inl TypeError, w1)
           else
             (let isHorizontal = (direction = utf16 ''vertical'');
                  w2 = w1\<lparr>rend := (rend w1)\<lparr>paneContainer :=
                          map (wrapPane p isHorizontal) (paneContainer (rend w1))\<rparr>\<rparr>;
                  (res, w3) = createPane e (tabId pn) (SplitContainerOf p) currentCwd w2
              in case res of
                   Inl err \<Rightarrow> (Inl err, w3)
                 | Inr n \<Rightarrow>
                     (Inr (Some n), w3\<lparr>rend := refitAllPanesInTab (tabId pn) (rend w3)\<rparr>))))"

definition createTab :: "env \<Rightarrow> world \<Rightarrow> (error + nat) \<times> world" where
  "createTab e w =
     (let (currentCwd, w1) = getFocusedPaneCwd e w;
          r1 = rend w1;
          t = tabIdCounter r1 + 1;
          r2 = r1\<lparr>tabIdCounter := t,
                  paneContainer := paneContainer r1 @ [Container (TabContent t) []],
                  tabs := (if t \<in> set (tabs r1) then tabs r1 else tabs r1 @ [t])\<rparr>;
          (res, w2) = createPane e t (ContentElement t) currentCwd (w1\<lparr>rend := r2\<rparr>)
      in case res of
           Inl err \<Rightarrow> (Inl err, w2)
         | Inr p \<Rightarrow> (Inr t, w2\<lparr>rend := switchTab t (rend w2)\<rparr>))"

section \<open>Concrete inputs\<close>

text \<open>An environment, and a run of the main process: three sessions are created, the
  first is destroyed, the second exits, and input arrives for the first afterwards.\<close>

definition env0 :: env where
  "env0 = \<lparr>homedir = utf16 ''/home/u'', spawn = (\<lambda>d. Some (length d)),
     lsof = (\<lambda>p. Some (utf16 ''/home/u'')), isDestroyed = (\<lambda>wc. False),
     fit = (\<lambda>p. (80, 24)),
     getBoundingClientRect =
       (\<lambda>p. \<lparr>rect_left = Finite 0, rect_top = Finite 0, rect_width = Finite 0,
              rect_height = Finite 0\<rparr>)\<rparr>"

definition demo_ops :: "(env \<times> main_op) list" where
  "demo_ops = [(env0, Create None 1), (env0, Create (Some (utf16 ''/tmp'')) 1),
     (env0, Destroy 1), (env0, Create None 1), (env0, PtyExit 2 0),
     (env0, Input 1 (utf16 ''ls''))]"

definition demo_main :: main_state where
  "demo_main = snd (run demo_ops init_main)"

text \<open>Two entries are the same session when they hold the same process, started in the
  same directory for the same window.\<close>

definition same_session :: "entry \<Rightarrow> entry \<Rightarrow> bool" where
  "same_session en en' \<longleftrightarrow>
     pid (pty en) = pid (pty en') \<and> cwd (pty en) = cwd (pty en') \<and>
     webContents en = webContents en'"

text \<open>The pane ids of the pane elements below an element, in document order (depth
  first, children from first to last).\<close>

fun paneIds :: "elem \<Rightarrow> nat list" where
  "paneIds (PaneEl q) = [q]"
| "paneIds (Divider h) = []"
| "paneIds (Container k cs) = concat (map paneIds cs)"

text \<open>Ids come from counters: no session id, no key of \<open>panes\<close> and no pane element is
  above its counter.\<close>

definition ids_fresh :: "world \<Rightarrow> bool" where
  "ids_fresh w \<longleftrightarrow>
     ids_bounded (mainp w) \<and>
     (\<forall>p \<in> fst ` set (panes (rend w)). p \<le> paneIdCounter (rend w)) \<and>
     (\<forall>c \<in> set (paneContainer (rend w)). \<forall>p \<in> set (paneIds c). p \<le> paneIdCounter (rend w))"

text \<open>\<^verbatim>\<open>panes\<close> is a \<^verbatim>\<open>Map\<close>, so its keys are distinct; a pane is stored under its own id,
  which is not 0 since \<^verbatim>\<open>++this.paneIdCounter\<close> starts at 1; and no two panes have the
  same session, since each pane gets the id that \<^verbatim>\<open>terminal-create\<close> returned for it.\<close>

definition panes_wf :: "renderer \<Rightarrow> bool" where
  "panes_wf r \<longleftrightarrow>
     distinct (map fst (panes r)) \<and>
     (\<forall>(i, pn) \<in> set (panes r). paneId pn = i \<and> i \<noteq> 0) \<and>
     distinct (map (\<lambda>(i, pn). terminalId pn) (panes r))"

text \<open>A window after its first tab was created, after the one pane was split, and after
  that pane was split again.\<close>

definition demo_w1 :: world where
  "demo_w1 = snd (createTab env0 (init_world 1))"

definition demo_w2 :: world where
  "demo_w2 = snd (splitPane env0 1 (utf16 ''vertical'') demo_w1)"

definition demo_w3 :: world where
  "demo_w3 = snd (splitPane env0 1 (utf16 ''horizontal'') demo_w2)"

text \<open>A window with three tabs of one pane each.\<close>

definition demo_t2 :: world where
  "demo_t2 = snd (createTab env0 demo_w1)"

definition demo_t3 :: world where
  "demo_t3 = snd (createTab env0 demo_t2)"

text \<open>
  The live working directory of a pane, in the words of the specification: the pane's
  session, when the main process still has it, has a process; the directory is what
  \<^verbatim>\<open>lsof\<close> prints for that process, without the white space around it; there is none
  when the session is gone, when the probe fails and when it prints nothing. A new
  terminal inherits the live directory of its source pane, and gets the home directory
  when there is no source pane or no live directory.
\<close>

definition live_cwd :: "env \<Rightarrow> main_state \<Rightarrow> pane option \<Rightarrow> jsstring option" where
  "live_cwd e s src =
     (case src of
        None \<Rightarrow> None
      | Some pn \<Rightarrow>
          (case map_of (ptyProcesses s) (terminalId pn) of
             None \<Rightarrow> None
           | Some en \<Rightarrow>
               (case lsof e (pid (pty en)) of
                  None \<Rightarrow> None
                | Some out \<Rightarrow> if trim out = [] then None else Some (trim out))))"

definition inherited_cwd :: "env \<Rightarrow> main_state \<Rightarrow> pane option \<Rightarrow> jsstring" where
  "inherited_cwd e s src = (case live_cwd e s src of None \<Rightarrow> homedir e | Some c \<Rightarrow> c)"

text \<open>The pane that has the focus, if any.\<close>

definition focusedPane :: "renderer \<Rightarrow> pane option" where
  "focusedPane r =
     (case focusedPaneId r of
        None \<Rightarrow> None
      | Some f \<Rightarrow> if f = 0 then None else map_of (panes r) f)"

text \<open>
  Environments for the working directory. In \<open>env_dirs k\<close> a new process gets the
  process id \<open>k\<close>, process 11 is in \<^verbatim>\<open>/srv/app\<close> (the output of the pipeline ends with a
  line feed), process 12 is in \<^verbatim>\<open>/var/log\<close> (printed between a no-break space and an em
  space with a line feed), and the probe fails for every other process. \<open>demo_c2\<close> is a
  window with one tab of two panes: pane 1 with process 11, and pane 2, which has the
  focus, with process 12. In \<open>demo_c3\<close> the process of pane 2 has exited since. In
  \<open>env_srv\<close> every process is in \<^verbatim>\<open>/srv/app\<close>, in \<open>env_noprobe\<close> the probe always fails.
\<close>

definition env_dirs :: "nat \<Rightarrow> env" where
  "env_dirs k = env0\<lparr>spawn := (\<lambda>d. Some k),
     lsof := (\<lambda>p. if p = 11 then Some (utf16 ''/srv/app'' @ [0x000A])
                else if p = 12 then Some ([0x00A0] @ utf16 ''/var/log'' @ [0x2003, 0x000A])
                else None)\<rparr>"

definition demo_c1 :: world where
  "demo_c1 = snd (createTab (env_dirs 11) (init_world 1))"

definition demo_c2 :: world where
  "demo_c2 = snd (splitPane (env_dirs 12) 1 (utf16 ''vertical'') demo_c1)"

definition demo_c3 :: world where
  "demo_c3 = demo_c2\<lparr>mainp := snd (main_step (env_dirs 13) (PtyExit 2 0) (mainp demo_c2))\<rparr>"

definition env_srv :: env where
  "env_srv = env0\<lparr>lsof := (\<lambda>p. Some (utf16 ''/srv/app'' @ [0x000A]))\<rparr>"

definition env_noprobe :: env where
  "env_noprobe = env0\<lparr>lsof := (\<lambda>p. None)\<rparr>"

text \<open>
  The focus rule in the words of the specification, for the focused pane \<open>f\<close> and a
  candidate \<open>c\<close>, both given by their ids. \<open>centre\<close> is the centre of a bounding
  rectangle and \<open>delta\<close> the pair \<open>(dx, dy)\<close> from the centre of \<open>f\<close> to the centre of \<open>c\<close>;
  \<open>primary\<close> is the delta along the requested direction, positive when the candidate
  lies in that direction, and \<open>cross\<close> the delta across it. A candidate is eligible when
  its primary delta is above 10; its score is the absolute primary delta plus half
  the absolute cross delta. \<open>nearest\<close> is the first pane of the iteration order that is
  not \<open>f\<close>, is eligible, and has a score no greater than that of any eligible candidate.
  All of this is in the arithmetic of JavaScript numbers.
\<close>

definition centre :: "rect \<Rightarrow> double \<times> double" where
  "centre rc =
     (dadd (rect_left rc) (dhalf (rect_width rc)), dadd (rect_top rc) (dhalf (rect_height rc)))"

definition delta :: "env \<Rightarrow> nat \<Rightarrow> nat \<Rightarrow> double \<times> double" where
  "delta e f c =
     (dsub (fst (centre (getBoundingClientRect e c))) (fst (centre (getBoundingClientRect e f))),
      dsub (snd (centre (getBoundingClientRect e c))) (snd (centre (getBoundingClientRect e f))))"

definition primary :: "direction \<Rightarrow> double \<times> double \<Rightarrow> double" where
  "primary dir d =
     (case dir of Up \<Rightarrow> dneg (snd d) | Down \<Rightarrow> snd d | Left \<Rightarrow> dneg (fst d) | Right \<Rightarrow> fst d)"

definition cross :: "direction \<Rightarrow> double \<times> double \<Rightarrow> double" where
  "cross dir d = (case dir of Up \<Rightarrow> fst d | Down \<Rightarrow> fst d | Left \<Rightarrow> snd d | Right \<Rightarrow> snd d)"

definition eligible :: "env \<Rightarrow> direction \<Rightarrow> nat \<Rightarrow> nat \<Rightarrow> bool" where
  "eligible e dir f c \<longleftrightarrow> dlt (Finite 10) (primary dir (delta e f c))"

definition score :: "env \<Rightarrow> direction \<Rightarrow> nat \<Rightarrow> nat \<Rightarrow> double" where
  "score e dir f c =
     dadd (dabs (primary dir (delta e f c)))
       (dmul (Finite (1 / 2)) (dabs (cross dir (delta e f c))))"

definition nearest :: "env \<Rightarrow> direction \<Rightarrow> nat \<Rightarrow> nat list \<Rightarrow> nat option" where
  "nearest e dir f ids =
     find (\<lambda>c. c \<noteq> f \<and> eligible e dir f c \<and>
              (\<forall>c' \<in> set ids. c' \<noteq> f \<and> eligible e dir f c' \<longrightarrow>
                 dle (score e dir f c) (score e dir f c'))) ids"

text \<open>
  A bounding rectangle as a browser reports it: four finite numbers, here of
  magnitude at most \<open>2 ^ 1000\<close>, so that no sum of the rule overflows.
\<close>

fun dbounded :: "nat \<Rightarrow> double \<Rightarrow> bool" where
  "dbounded k (Finite q) = (\<bar>q\<bar> \<le> 2 ^ k)"
| "dbounded k a = False"

definition finite_rect :: "rect \<Rightarrow> bool" where
  "finite_rect rc \<longleftrightarrow>
     dbounded 1000 (rect_left rc) \<and> dbounded 1000 (rect_top rc) \<and>
     dbounded 1000 (rect_width rc) \<and> dbounded 1000 (rect_height rc)"

text \<open>
  Geometries for the three panes of \<open>demo_w3\<close>, and the state in which pane 1 has the
  focus. In \<open>env_geo\<close> all panes are 100 wide and high and at the same height, pane 1
  centred at \<open>x = 0\<close>, pane 2 at \<open>x = 100\<close> and pane 3 at \<open>x = - 100\<close>. In \<open>env_geo2\<close> the centres
  are \<open>(50, 50)\<close>, \<open>(150, 350)\<close> and \<open>(270, 50)\<close>: pane 2 is the nearer one to the right
  along the axis, pane 3 the nearer one by score. In \<open>env_tie\<close> the centres are
  \<open>(50, 50)\<close>, \<open>(150, 50)\<close> and \<open>(130, 90)\<close>: panes 2 and 3 both have the score 100 to the
  right. In \<open>env_round\<close> the left edges of panes 1 and 2 are the doubles written \<^verbatim>\<open>0.3\<close> and
  \<^verbatim>\<open>10.3\<close>: the exact distance of their centres is above 10, the computed one is 10.
\<close>

definition square :: "rat \<Rightarrow> rat \<Rightarrow> rect" where
  "square l t = \<lparr>rect_left = Finite l, rect_top = Finite t, rect_width = Finite 100,
     rect_height = Finite 100\<rparr>"

definition env_geo :: env where
  "env_geo = env0\<lparr>getBoundingClientRect :=
     (\<lambda>p. if p = 1 then square (- 50) 0 else if p = 2 then square 50 0 else square (- 150) 0)\<rparr>"

definition env_geo2 :: env where
  "env_geo2 = env0\<lparr>getBoundingClientRect :=
     (\<lambda>p. if p = 1 then square 0 0 else if p = 2 then square 100 300 else square 220 0)\<rparr>"

definition env_tie :: env where
  "env_tie = env0\<lparr>getBoundingClientRect :=
     (\<lambda>p. if p = 1 then square 0 0 else if p = 2 then square 100 0 else square 80 40)\<rparr>"

definition env_round :: env where
  "env_round = env0\<lparr>getBoundingClientRect :=
     (\<lambda>p. if p = 1 then square (5404319552844595 / 18014398509481984) 0
          else if p = 2 then square (2899192260119757 / 281474976710656) 0
          else square (- 150) 0)\<rparr>"

definition demo_focus1 :: renderer where
  "demo_focus1 = focusPane 1 (rend demo_w3)"


section \<open>Reachable states\<close>

text \<open>
  The states the program reaches. \<open>act\<close> is one thing that can happen: a user action
  on the window, the delivery of some event to the renderer, some timer callback, the
  main process handling the messages sent so far, or any step of the main process
  (callbacks of a pseudo-terminal, commands of another window). \<open>world_inv\<close> is what holds
  in every state reached from the initial one: the panes are well-formed, and no id (of a
  session, of a pane, of a pane element in the tree) is above its counter.
\<close>

definition domIds :: "elem list \<Rightarrow> nat set" where
  "domIds els = set (concat (map paneIds els))"

definition rinv :: "nat \<Rightarrow> renderer \<Rightarrow> bool" where
  "rinv c r \<longleftrightarrow>
     panes_wf r \<and>
     (\<forall>(i, pn) \<in> set (panes r). i \<le> paneIdCounter r \<and> terminalId pn \<le> c) \<and>
     (\<forall>p \<in> domIds (paneContainer r). p \<le> paneIdCounter r)"

definition world_inv :: "world \<Rightarrow> bool" where
  "world_inv w \<longleftrightarrow> ids_bounded (mainp w) \<and> rinv (terminalIdCounter (mainp w)) (rend w)"

datatype action =
    CreateTab
  | SplitPane nat jsstring
  | ClosePane nat
  | CloseTab nat
  | SwitchTab nat
  | FocusDirection direction
  | FocusNextPane
  | Deliver event
  | Fire timer
  | Flush
  | MainStep main_op

fun act :: "env \<Rightarrow> action \<Rightarrow> world \<Rightarrow> world" where
  "act e CreateTab w = snd (createTab e w)"
| "act e (SplitPane p d) w = snd (splitPane e p d w)"
| "act e (ClosePane p) w = w\<lparr>rend := snd (closePane p (rend w))\<rparr>"
| "act e (CloseTab t) w = w\<lparr>rend := closeTab t (rend w)\<rparr>"
| "act e (SwitchTab t) w = w\<lparr>rend := switchTab t (rend w)\<rparr>"
| "act e (FocusDirection d) w = w\<lparr>rend := focusDirection e d (rend w)\<rparr>"
| "act e FocusNextPane w = w\<lparr>rend := focusNextPane (rend w)\<rparr>"
| "act e (Deliver ev) w = w\<lparr>rend := handle_event ev (rend w)\<rparr>"
| "act e (Fire tm) w = w\<lparr>rend := snd (fire e tm (rend w))\<rparr>"
| "act e Flush w = flush w"
| "act e (MainStep op) w = w\<lparr>mainp := snd (main_step e op (mainp w))\<rparr>"

fun acts :: "(env \<times> action) list \<Rightarrow> world \<Rightarrow> world" where
  "acts [] w = w"
| "acts ((e, a) # as) w = acts as (act e a w)"

text \<open>A renderer state \<open>r'\<close> that has some of the panes and pane elements of \<open>r\<close>, and
  no others.\<close>

definition sub_panes :: "renderer \<Rightarrow> renderer \<Rightarrow> bool" where
  "sub_panes r' r \<longleftrightarrow>
     (\<exists>P. panes r' = filter P (panes r)) \<and> paneIdCounter r' = paneIdCounter r \<and>
     domIds (paneContainer r') \<subseteq> domIds (paneContainer r)"

subsection \<open>The shape of the layout tree\<close>

text \<open>
  The elements of \<^verbatim>\<open>#pane-container\<close> are the content elements of the tabs
  (\<^verbatim>\<open>createTab\<close> appends one per tab); below a content element there are only
  pane elements, dividers and split containers. \<open>layout\<close> lists, per content element, its
  tab and the panes it holds in document order; \<open>tabOf\<close> lists the registered panes with
  their tabs. \<open>dom_inv\<close> says that the two agree: every registered pane is held by the
  content element of its own tab, exactly once, and nothing else is held anywhere.
  \<open>expand p n\<close> is the effect of a split on the document order: the new pane \<open>n\<close>
  comes right after \<open>p\<close>.
\<close>

fun noContent :: "elem \<Rightarrow> bool" where
  "noContent (Container k cs) = (isSplit k \<and> (\<forall>c \<in> set cs. noContent c))"
| "noContent x = True"

fun isContent :: "elem \<Rightarrow> bool" where
  "isContent (Container (TabContent t) cs) = (\<forall>c \<in> set cs. noContent c)"
| "isContent x = False"

fun contentTab :: "elem \<Rightarrow> nat" where
  "contentTab (Container (TabContent t) cs) = t"
| "contentTab x = 0"

definition layout :: "elem list \<Rightarrow> (nat \<times> nat list) list" where
  "layout els = map (\<lambda>x. (contentTab x, paneIds x)) els"

definition expand :: "nat \<Rightarrow> nat \<Rightarrow> nat list \<Rightarrow> nat list" where
  "expand p n ids = concat (map (\<lambda>q. if q = p then [p, n] else [q]) ids)"

definition tabOf :: "renderer \<Rightarrow> (nat \<times> nat) list" where
  "tabOf r = map (\<lambda>(i, pn). (i, tabId pn)) (panes r)"

definition ainv :: "(nat \<times> nat list) list \<Rightarrow> (nat \<times> nat) list \<Rightarrow> nat \<Rightarrow> bool" where
  "ainv lay pt tc \<longleftrightarrow>
     (\<forall>(t, ids) \<in> set lay. t \<le> tc) \<and>
     distinct (map fst lay) \<and>
     distinct (concat (map snd lay)) \<and>
     (\<forall>(t, ids) \<in> set lay. \<forall>i \<in> set ids. (i, t) \<in> set pt) \<and>
     (\<forall>(i, t) \<in> set pt. \<exists>ids. (t, ids) \<in> set lay \<and> i \<in> set ids)"

definition dom_inv :: "renderer \<Rightarrow> bool" where
  "dom_inv r \<longleftrightarrow>
     (\<forall>x \<in> set (paneContainer r). isContent x) \<and>
     ainv (layout (paneContainer r)) (tabOf r) (tabIdCounter r)"

definition full_inv :: "world \<Rightarrow> bool" where
  "full_inv w \<longleftrightarrow> world_inv w \<and> dom_inv (rend w)"


section \<open>Properties of numbers and strings\<close>

lemma utf16_Nil [simp]: "utf16 s = [] \<longleftrightarrow> s = []"
  by (simp add: utf16_def)

lemma length_utf16 [simp]: "length (utf16 s) = length s"
  by (simp add: utf16_def)

lemma code_unit_inj:
  "(of_nat (of_char c) :: 16 word) = of_nat (of_char d) \<longleftrightarrow> c = d"
proof
  assume eq: "(of_nat (of_char c) :: 16 word) = of_nat (of_char d)"
  have lt: "(of_char x :: nat) < 2 ^ LENGTH(16)" for x :: char
  proof -
    have "(of_char x :: nat) < 256" by (rule nat_of_char_less_256)
    then show ?thesis by (rule less_trans) simp
  qed
  have "unat (of_nat (of_char c) :: 16 word) = unat (of_nat (of_char d) :: 16 word)"
    using eq by simp
  then have "(of_char c :: nat) = of_char d"
    using lt[of c] lt[of d] by (simp only: unat_of_nat mod_less)
  then show "c = d" by simp
qed simp

lemma utf16_eq_iff [simp]: "utf16 s = utf16 t \<longleftrightarrow> s = t"
proof
  assume "utf16 s = utf16 t"
  then show "s = t"
  proof (induction s arbitrary: t)
    case Nil
    then show ?case by (simp add: utf16_def)
  next
    case (Cons a s)
    then obtain b t' where t: "t = b # t'" by (cases t) (auto simp: utf16_def)
    with Cons.prems have "(of_nat (of_char a) :: 16 word) = of_nat (of_char b)"
      and "utf16 s = utf16 t'" by (simp_all add: utf16_def)
    with Cons.IH[of t'] t show ?case by (simp add: code_unit_inj)
  qed
qed simp

text \<open>
  Rounding stays within powers of two: a rational of magnitude at most \<open>2 ^ k\<close>, for
  \<open>k\<close> up to 1023, rounds to a finite double of magnitude at most \<open>2 ^ k\<close>. Hence sums,
  differences and halves of bounded doubles are finite.
\<close>

lemma two_p_powi: "two_p k = 2 powi k"
  by (simp add: two_p_def power_int_def inverse_eq_divide power_one_over)

lemma two_p_pos: "0 < two_p k"
  by (simp add: two_p_powi)

lemma two_p_add: "two_p (a + b) = two_p a * two_p b"
  by (simp add: two_p_powi power_int_add)

lemma two_p_nat: "two_p (int n) = 2 ^ n"
  by (simp add: two_p_def)

lemma two_p_less: "two_p a < two_p b \<longleftrightarrow> a < b"
proof -
  have up: "two_p c < two_p d" if "c < d" for c d
  proof -
    define n where "n = nat (d - c)"
    have d: "d = int n + c" and n: "0 < n" using that by (simp_all add: n_def)
    have "two_p d = two_p (int n) * two_p c" unfolding d by (rule two_p_add)
    moreover have "(1::rat) < 2 ^ n" using n by (simp add: one_less_power)
    ultimately show ?thesis using two_p_pos[of c] by (simp add: two_p_nat)
  qed
  show ?thesis
  proof
    assume l: "two_p a < two_p b"
    show "a < b"
    proof (rule ccontr)
      assume "\<not> a < b"
      then have "b = a \<or> b < a" by auto
      with up[of b a] l show False by auto
    qed
  qed (rule up)
qed

lemma two_p_le: "two_p a \<le> two_p b \<longleftrightarrow> a \<le> b"
  using two_p_less[of b a] by auto

lemma ilog2_le: "0 < n \<Longrightarrow> 2 ^ ilog2 n \<le> n"
proof (induction n rule: ilog2.induct)
  case (1 n)
  show ?case
  proof (cases "n < 2")
    case True
    with 1 show ?thesis by (simp add: ilog2.simps)
  next
    case False
    then have "0 < n div 2" by simp
    with 1 False have "2 ^ ilog2 (n div 2) \<le> n div 2" by simp
    then have "2 * 2 ^ ilog2 (n div 2) \<le> n" by simp
    with False show ?thesis by (simp add: ilog2.simps[of n])
  qed
qed

lemma ilog2_less: "n < 2 ^ Suc (ilog2 n)"
proof (induction n rule: ilog2.induct)
  case (1 n)
  show ?case
  proof (cases "n < 2")
    case True
    then show ?thesis by (simp add: ilog2.simps)
  next
    case False
    with 1 have "n div 2 < 2 ^ Suc (ilog2 (n div 2))" by simp
    then have "n < 2 * 2 ^ Suc (ilog2 (n div 2))" by simp
    with False show ?thesis by (simp add: ilog2.simps[of n])
  qed
qed

lemma expo_le:
  assumes "0 < a"
  shows "two_p (expo a) \<le> a"
proof (cases "1 \<le> a")
  case True
  then have "0 < nat \<lfloor>a\<rfloor>" by simp
  from ilog2_le[OF this] have "(2::nat) ^ ilog2 (nat \<lfloor>a\<rfloor>) \<le> nat \<lfloor>a\<rfloor>" .
  then have "(of_nat (2 ^ ilog2 (nat \<lfloor>a\<rfloor>)) :: rat) \<le> of_nat (nat \<lfloor>a\<rfloor>)"
    by (simp only: of_nat_le_iff)
  also have "\<dots> = of_int \<lfloor>a\<rfloor>" using True by simp
  also have "\<dots> \<le> a" by simp
  finally show ?thesis using True by (simp add: expo_def two_p_nat)
next
  case False
  define m where "m = nat \<lceil>1 / a\<rceil> - 1"
  have "1 < 1 / a" using False assms by simp
  then have c: "1 < \<lceil>1 / a\<rceil>" by (simp add: less_ceiling_iff)
  have "m < 2 ^ Suc (ilog2 m)" by (rule ilog2_less)
  then have "nat \<lceil>1 / a\<rceil> \<le> 2 ^ Suc (ilog2 m)" using c by (simp add: m_def)
  then have "\<lceil>1 / a\<rceil> \<le> int (2 ^ Suc (ilog2 m))" by linarith
  then have "1 / a \<le> of_int (int (2 ^ Suc (ilog2 m)))" by (simp only: ceiling_le_iff)
  then have "1 / a \<le> 2 ^ Suc (ilog2 m)" by simp
  then have "1 / 2 ^ Suc (ilog2 m) \<le> a" using assms
    by (simp add: field_simps)
  moreover have "expo a = - int (Suc (ilog2 m))" using False by (simp add: expo_def m_def)
  moreover have "nat (int (Suc (ilog2 m))) = Suc (ilog2 m)" by (rule nat_int)
  ultimately show ?thesis unfolding two_p_def by (simp del: of_nat_Suc power_Suc)
qed

lemma round_half_even_le: "x \<le> of_int M \<Longrightarrow> round_half_even x \<le> M"
proof -
  assume a: "x \<le> of_int M"
  then have f: "\<lfloor>x\<rfloor> \<le> M" by (simp add: floor_le_iff)
  show ?thesis
  proof (cases "\<lfloor>x\<rfloor> = M")
    case True
    then have "x - of_int \<lfloor>x\<rfloor> \<le> 0" using a by simp
    then show ?thesis using True by (simp add: round_half_even_def Let_def)
  next
    case False
    with f have "\<lfloor>x\<rfloor> + 1 \<le> M" by simp
    then show ?thesis using f by (simp add: round_half_even_def Let_def)
  qed
qed

lemma round_half_even_nonneg: "0 \<le> x \<Longrightarrow> 0 \<le> round_half_even x"
  by (simp add: round_half_even_def Let_def)

lemma rnd_bound:
  assumes "\<bar>x\<bar> \<le> 2 ^ k" and "k \<le> 1023"
  shows "\<exists>y. rnd x = Finite y \<and> \<bar>y\<bar> \<le> 2 ^ k"
proof (cases "x = 0")
  case True
  then show ?thesis by (simp add: rnd_def)
next
  case False
  define a where "a = \<bar>x\<bar>"
  define e where "e = max (expo a) (- 1022)"
  define ulp where "ulp = two_p (e - 52)"
  define y where "y = of_int (round_half_even (a / ulp)) * ulp"
  have a0: "0 < a" using False by (simp add: a_def)
  have ak: "a \<le> two_p (int k)" using assms(1) by (simp add: a_def two_p_nat)
  from expo_le[OF a0] ak have "two_p (expo a) \<le> two_p (int k)" by simp
  then have "expo a \<le> int k" by (simp only: two_p_le)
  then have ek: "e \<le> int k" by (simp add: e_def)
  have u0: "0 < ulp" by (simp add: ulp_def two_p_pos)
  define n where "n = nat (int k - e + 52)"
  have kk: "two_p (int k) = of_int (2 ^ n) * ulp"
  proof -
    have "int k = int n + (e - 52)" using ek by (simp add: n_def)
    then have "two_p (int k) = two_p (int n) * two_p (e - 52)" by (simp only: two_p_add)
    then show ?thesis by (simp add: two_p_nat ulp_def)
  qed
  have "a / ulp \<le> of_int (2 ^ n)" using ak u0 by (simp add: kk field_simps)
  then have "round_half_even (a / ulp) \<le> 2 ^ n" by (rule round_half_even_le)
  then have "(of_int (round_half_even (a / ulp)) :: rat) \<le> of_int (2 ^ n)"
    by (simp only: of_int_le_iff)
  then have yk: "y \<le> two_p (int k)" using u0 by (simp add: y_def kk)
  have "0 \<le> a / ulp" using a0 u0 by simp
  then have "0 \<le> round_half_even (a / ulp)" by (rule round_half_even_nonneg)
  then have y0: "0 \<le> y" using u0 by (simp add: y_def)
  have "two_p (int k) < two_p 1024" using assms(2) by (simp only: two_p_less)
  with yk have ny: "\<not> two_p 1024 \<le> y" by simp
  have "rnd x = Finite (if 0 < x then y else - y)"
    using False ny unfolding rnd_def Let_def y_def ulp_def e_def a_def by simp
  moreover have "\<bar>if 0 < x then y else - y\<bar> \<le> 2 ^ k" using y0 yk by (simp add: two_p_nat)
  ultimately show ?thesis by blast
qed


lemma dbounded_iff: "dbounded k d \<longleftrightarrow> (\<exists>q. d = Finite q \<and> \<bar>q\<bar> \<le> 2 ^ k)"
  by (cases d) simp_all

lemma rnd_dbounded: "\<bar>x\<bar> \<le> 2 ^ k \<Longrightarrow> k \<le> 1023 \<Longrightarrow> dbounded k (rnd x)"
  using rnd_bound[of x k] by (auto simp: dbounded_iff)

lemma dbounded_mono: "dbounded k d \<Longrightarrow> k \<le> k' \<Longrightarrow> dbounded k' d"
proof -
  assume a: "dbounded k d" and le: "k \<le> k'"
  then obtain q where q: "d = Finite q" "\<bar>q\<bar> \<le> 2 ^ k" by (auto simp: dbounded_iff)
  have "(2::rat) ^ k \<le> 2 ^ k'" using le by (simp add: power_increasing)
  with q(2) have "\<bar>q\<bar> \<le> 2 ^ k'" by (rule order_trans)
  with q(1) show ?thesis by simp
qed

lemma dbounded_neg: "dbounded k d \<Longrightarrow> dbounded k (dneg d)"
  by (cases d) simp_all

lemma dbounded_abs: "dbounded k d \<Longrightarrow> dbounded k (dabs d)"
  by (cases d) simp_all

lemma dbounded_half: "dbounded k d \<Longrightarrow> k \<le> 1023 \<Longrightarrow> dbounded k (dhalf d)"
proof -
  assume a: "dbounded k d" and le: "k \<le> 1023"
  then obtain q where q: "d = Finite q" "\<bar>q\<bar> \<le> 2 ^ k" by (auto simp: dbounded_iff)
  then have "\<bar>q / 2\<bar> \<le> 2 ^ k" by simp
  from rnd_dbounded[OF this le] q show ?thesis by simp
qed

lemma dbounded_mul_half:
  "dbounded k d \<Longrightarrow> k \<le> 1023 \<Longrightarrow> dbounded k (dmul (Finite (1 / 2)) d)"
proof -
  assume a: "dbounded k d" and le: "k \<le> 1023"
  then obtain q where q: "d = Finite q" "\<bar>q\<bar> \<le> 2 ^ k" by (auto simp: dbounded_iff)
  then have "\<bar>1 / 2 * q\<bar> \<le> 2 ^ k" by simp
  from rnd_dbounded[OF this le] q show ?thesis by simp
qed

lemma dbounded_add:
  "dbounded k a \<Longrightarrow> dbounded k b \<Longrightarrow> k < 1023 \<Longrightarrow> dbounded (Suc k) (dadd a b)"
proof -
  assume a: "dbounded k a" and b: "dbounded k b" and le: "k < 1023"
  then obtain p q where q: "a = Finite p" "\<bar>p\<bar> \<le> 2 ^ k" "b = Finite q" "\<bar>q\<bar> \<le> 2 ^ k"
    by (auto simp: dbounded_iff)
  then have "\<bar>p + q\<bar> \<le> 2 ^ Suc k" by simp
  moreover have "Suc k \<le> 1023" using le by simp
  ultimately have "dbounded (Suc k) (rnd (p + q))" by (rule rnd_dbounded)
  with q show ?thesis by simp
qed

lemma dbounded_sub:
  "dbounded k a \<Longrightarrow> dbounded k b \<Longrightarrow> k < 1023 \<Longrightarrow> dbounded (Suc k) (dsub a b)"
  unfolding dsub_def by (intro dbounded_add dbounded_neg)

lemma dlt_neg: "dlt a (Finite (- x)) = dlt (Finite x) (dneg a)"
  by (cases a) auto

lemma dabs_dneg: "dabs (dneg a) = dabs a"
  by (cases a) simp_all

lemma dmul_commute: "dmul a b = dmul b a"
  by (cases a; cases b) (simp_all add: mult.commute)

lemma dle_not_dlt: "dle a b \<Longrightarrow> \<not> dlt b a"
  by (cases a; cases b) simp_all

text \<open>Facts for computing \<open>rnd\<close> on numerals.\<close>

lemma floor_rat_numeral:
  "\<lfloor>numeral a / numeral b :: rat\<rfloor> = numeral a div numeral b"
  using floor_divide_of_int_eq[of "numeral a" "numeral b", where ?'a = rat] by simp

lemma ceiling_rat_numeral:
  "\<lceil>numeral a / numeral b :: rat\<rceil> = - (- numeral a div numeral b)"
  using ceiling_divide_eq_div[of "numeral a" "numeral b", where ?'a = rat] by simp

lemmas rnd_eval = rnd_def expo_def two_p_def round_half_even_def Let_def ilog2.simps
  floor_rat_numeral ceiling_rat_numeral

lemma rnd_examples:
  "rnd 150 = Finite 150"
  "rnd (1 / 3) = Finite (6004799503160661 / 18014398509481984)"
  "rnd (- 5 / 3) = Finite (- (7505999378950827 / 4503599627370496))"
  "rnd (5404319552844595 / 18014398509481984 + 50) = Finite (3539547832136499 / 70368744177664)"
  by (simp_all add: rnd_eval)

section \<open>Properties of the main process\<close>

lemmas main_defs = terminal_create_def createPtyProcess_def Let_def terminal_destroy_def
  terminal_input_def terminal_resize_def ptyOnData_def ptyOnExit_def window_close_def
  window_all_closed_def

lemma step_counter_mono:
  "main_step e op s = (r, s') \<Longrightarrow> terminalIdCounter s \<le> terminalIdCounter s'"
  by (cases op) (auto simp: main_defs split: option.splits if_splits)

lemma step_returns:
  "main_step e op s = (Some (Inr k), s') \<Longrightarrow>
     k = terminalIdCounter s + 1 \<and> terminalIdCounter s' = k"
  by (cases op) (auto simp: main_defs split: option.splits)

lemma step_entry:
  assumes "main_step e op s = (r, s')" and "k \<noteq> terminalIdCounter s + 1"
    and "map_of (ptyProcesses s') k = Some en'"
  shows "\<exists>en. map_of (ptyProcesses s) k = Some en \<and> same_session en en'"
  using assms
  by (cases op)
     (auto simp: main_defs same_session_def update_conv' delete_conv'
        split: option.splits if_splits)

lemma step_keys:
  assumes "main_step e op s = (r, s')" and "map_of (ptyProcesses s') k = Some en'"
  shows "map_of (ptyProcesses s) k \<noteq> None \<or> k = terminalIdCounter s'"
  using assms
  by (cases op)
     (auto simp: main_defs update_conv' delete_conv' split: option.splits if_splits)

lemma step_bounded:
  assumes "main_step e op s = (r, s')" and "ids_bounded s"
  shows "ids_bounded s'"
  unfolding ids_bounded_def
proof
  fix k assume "k \<in> fst ` set (ptyProcesses s')"
  then obtain en' where en': "map_of (ptyProcesses s') k = Some en'"
    by (metis map_of_eq_None_iff not_Some_eq)
  from step_keys[OF assms(1) en'] show "k \<le> terminalIdCounter s'"
  proof
    assume "map_of (ptyProcesses s) k \<noteq> None"
    then have "k \<in> fst ` set (ptyProcesses s)"
      by (simp add: map_of_eq_None_iff)
    with assms(2) have "k \<le> terminalIdCounter s" by (auto simp: ids_bounded_def)
    with step_counter_mono[OF assms(1)] show ?thesis by simp
  qed simp
qed

lemma run_counter_mono:
  "run ops s = (rs, s') \<Longrightarrow> terminalIdCounter s \<le> terminalIdCounter s'"
proof (induction ops arbitrary: s rs s')
  case Nil
  then show ?case by simp
next
  case (Cons a ops)
  obtain e op where a: "a = (e, op)" by (cases a)
  obtain r s1 where st: "main_step e op s = (r, s1)" by (cases "main_step e op s")
  obtain rs2 s2 where rn: "run ops s1 = (rs2, s2)" by (cases "run ops s1")
  from Cons.prems a st rn have "s' = s2" by simp
  with Cons.IH[OF rn] step_counter_mono[OF st] show ?case by simp
qed

lemma run_ids:
  "run ops s = (rs, s') \<Longrightarrow>
     sorted_wrt (<) (returned_ids rs) \<and>
     (\<forall>k \<in> set (returned_ids rs). terminalIdCounter s < k \<and> k \<le> terminalIdCounter s')"
proof (induction ops arbitrary: s rs s')
  case Nil
  then show ?case by (simp add: returned_ids_def)
next
  case (Cons a ops)
  obtain e op where a: "a = (e, op)" by (cases a)
  obtain r s1 where st: "main_step e op s = (r, s1)" by (cases "main_step e op s")
  obtain rs2 s2 where rn: "run ops s1 = (rs2, s2)" by (cases "run ops s1")
  from Cons.prems a st rn
  have eqs: "s' = s2" "rs = (case r of None \<Rightarrow> [] | Some x \<Rightarrow> [x]) @ rs2" by simp_all
  note ih = Cons.IH[OF rn]
  note m1 = step_counter_mono[OF st]
  note m2 = run_counter_mono[OF rn]
  show ?case
  proof (cases r)
    case None
    with eqs ih m1 show ?thesis by (auto simp: returned_ids_def)
  next
    case (Some x)
    show ?thesis
    proof (cases x)
      case (Inl err)
      with Some eqs ih m1 show ?thesis by (auto simp: returned_ids_def)
    next
      case (Inr k)
      with Some st have "k = terminalIdCounter s + 1" "terminalIdCounter s1 = k"
        using step_returns by blast+
      with Some Inr eqs ih m1 m2 show ?thesis
        by (auto simp: returned_ids_def)
    qed
  qed
qed

lemma run_bounded: "run ops s = (rs, s') \<Longrightarrow> ids_bounded s \<Longrightarrow> ids_bounded s'"
proof (induction ops arbitrary: s rs s')
  case Nil
  then show ?case by simp
next
  case (Cons a ops)
  obtain e op where a: "a = (e, op)" by (cases a)
  obtain r s1 where st: "main_step e op s = (r, s1)" by (cases "main_step e op s")
  obtain rs2 s2 where rn: "run ops s1 = (rs2, s2)" by (cases "run ops s1")
  from Cons.prems a st rn have "s' = s2" by simp
  with Cons.IH[OF rn step_bounded[OF st Cons.prems(2)]] show ?case by simp
qed

lemma run_entry:
  "run ops s = (rs, s') \<Longrightarrow> k \<le> terminalIdCounter s \<Longrightarrow>
   map_of (ptyProcesses s') k = Some en' \<Longrightarrow>
   \<exists>en. map_of (ptyProcesses s) k = Some en \<and> same_session en en'"
proof (induction ops arbitrary: s rs s')
  case Nil
  then show ?case by (simp add: same_session_def)
next
  case (Cons a ops)
  obtain e op where a: "a = (e, op)" by (cases a)
  obtain r s1 where st: "main_step e op s = (r, s1)" by (cases "main_step e op s")
  obtain rs2 s2 where rn: "run ops s1 = (rs2, s2)" by (cases "run ops s1")
  from Cons.prems a st rn have s': "s' = s2" by simp
  have "k \<le> terminalIdCounter s1" using step_counter_mono[OF st] Cons.prems(2) by simp
  from Cons.IH[OF rn this] Cons.prems(3) s'
  obtain en1 where en1: "map_of (ptyProcesses s1) k = Some en1" "same_session en1 en'" by blast
  have "k \<noteq> terminalIdCounter s + 1" using Cons.prems(2) by simp
  from step_entry[OF st this en1(1)] en1(2) show ?case
    by (auto simp: same_session_def)
qed

lemma demo_main_eval:
  "ptyProcesses demo_main =
     [(3, \<lparr>pty = \<lparr>pid = 7, cwd = utf16 ''/home/u'', cols = 80, rows = 24, written = []\<rparr>,
           webContents = Some 1\<rparr>)]"
  "terminalIdCounter demo_main = 3"
  by (simp_all add: demo_main_def demo_ops_def init_main_def env0_def main_defs)

text \<open>
  C9. A \<^verbatim>\<open>terminal-input\<close> or \<^verbatim>\<open>terminal-resize\<close> command for a session id that has no
  entry in \<open>ptyProcesses\<close> leaves the whole state of the main process as it is, and the
  handlers have no failing branch. An id has no entry when it was never handed out (it is
  above the counter), after \<^verbatim>\<open>terminal-destroy\<close>, and after the process exit callback.
\<close>

theorem stale_write_resize_noop:
  "(map_of (ptyProcesses s) k = None \<longrightarrow>
      terminal_input k d s = s \<and> terminal_resize k c r s = s) \<and>
   (ids_bounded s \<and> terminalIdCounter s < k \<longrightarrow> map_of (ptyProcesses s) k = None) \<and>
   map_of (ptyProcesses (terminal_destroy k s)) k = None \<and>
   map_of (ptyProcesses (ptyOnExit e k x s)) k = None"
proof -
  have "ids_bounded s \<and> terminalIdCounter s < k \<longrightarrow> map_of (ptyProcesses s) k = None"
    by (auto simp: ids_bounded_def map_of_eq_None_iff)
  moreover have "map_of (ptyProcesses (terminal_destroy k s)) k = None"
    by (simp add: terminal_destroy_def delete_conv' split: option.splits)
  moreover have "map_of (ptyProcesses (ptyOnExit e k x s)) k = None"
    by (simp add: ptyOnExit_def Let_def delete_conv')
  ultimately show ?thesis
    by (simp add: terminal_input_def terminal_resize_def)
qed

theorem stale_write_resize_noop_witness:
  "map_of (ptyProcesses demo_main) 1 = None \<and>
   terminal_input 1 (utf16 ''ls'') demo_main = demo_main \<and>
   terminal_resize 1 120 40 demo_main = demo_main \<and>
   ids_bounded demo_main \<and> terminalIdCounter demo_main < 9 \<and>
   map_of (ptyProcesses demo_main) 9 = None"
proof -
  have h1: "map_of (ptyProcesses demo_main) 1 = None"
    by (simp add: demo_main_eval)
  have h2: "ids_bounded demo_main \<and> terminalIdCounter demo_main < 9"
    by (simp add: ids_bounded_def demo_main_eval)
  from stale_write_resize_noop[of demo_main 1 "(utf16 ''ls'')" 120 40 env0 0] h1
  have "terminal_input 1 (utf16 ''ls'') demo_main = demo_main \<and>
        terminal_resize 1 120 40 demo_main = demo_main" by blast
  moreover from stale_write_resize_noop[of demo_main 9 "(utf16 ''ls'')" 120 40 env0 0] h2
  have "map_of (ptyProcesses demo_main) 9 = None" by blast
  ultimately show ?thesis using h1 h2 by simp
qed

text \<open>
  C10. In every run of the main process from a state whose ids are at most the counter,
  the ids that \<^verbatim>\<open>terminal-create\<close> returns are strictly increasing and above every id
  handed out before the run; \<^verbatim>\<open>terminal-destroy\<close> and the exit callback only delete the
  entry of their id; and an id handed out before the run denotes, at the end of the run,
  either nothing or the session it denoted at the start: an id without entry never gets
  one again.
\<close>

theorem session_ids_never_reused:
  assumes "ids_bounded s" and "run ops s = (rs, s')"
  shows "sorted_wrt (<) (returned_ids rs) \<and>
     (\<forall>k \<in> set (returned_ids rs). terminalIdCounter s < k \<and> k \<le> terminalIdCounter s') \<and>
     ids_bounded s' \<and>
     (\<forall>k en'. k \<le> terminalIdCounter s \<and> map_of (ptyProcesses s') k = Some en' \<longrightarrow>
        (\<exists>en. map_of (ptyProcesses s) k = Some en \<and> same_session en en')) \<and>
     (\<forall>k. k \<le> terminalIdCounter s \<and> map_of (ptyProcesses s) k = None \<longrightarrow>
        map_of (ptyProcesses s') k = None) \<and>
     (\<forall>k. ptyProcesses (terminal_destroy k s) = AList.delete k (ptyProcesses s)) \<and>
     (\<forall>e k x. ptyProcesses (ptyOnExit e k x s) = AList.delete k (ptyProcesses s))"
proof -
  have a: "\<forall>k en'. k \<le> terminalIdCounter s \<and> map_of (ptyProcesses s') k = Some en' \<longrightarrow>
        (\<exists>en. map_of (ptyProcesses s) k = Some en \<and> same_session en en')"
    using run_entry[OF assms(2)] by blast
  then have b: "\<forall>k. k \<le> terminalIdCounter s \<and> map_of (ptyProcesses s) k = None \<longrightarrow>
        map_of (ptyProcesses s') k = None"
    by (metis option.distinct(1) option.exhaust)
  have c: "\<forall>k. ptyProcesses (terminal_destroy k s) = AList.delete k (ptyProcesses s)"
    by (auto simp: terminal_destroy_def map_of_eq_None_iff split: option.splits)
  have d: "\<forall>e k x. ptyProcesses (ptyOnExit e k x s) = AList.delete k (ptyProcesses s)"
    by (auto simp: ptyOnExit_def Let_def split: option.splits)
  from run_ids[OF assms(2)] run_bounded[OF assms(2) assms(1)] a b c d show ?thesis
    by blast
qed

theorem session_ids_never_reused_witness:
  "ids_bounded init_main \<and>
   returned_ids (fst (run demo_ops init_main)) = [1, 2, 3] \<and>
   sorted_wrt (<) (returned_ids (fst (run demo_ops init_main))) \<and>
   ids_bounded demo_main \<and>
   map_of (ptyProcesses demo_main) 1 = None \<and> map_of (ptyProcesses demo_main) 2 = None"
proof -
  have h1: "ids_bounded init_main"
    by (simp add: ids_bounded_def init_main_def)
  have h2: "run demo_ops init_main = (fst (run demo_ops init_main), demo_main)"
    by (simp add: demo_main_def)
  have h3: "returned_ids (fst (run demo_ops init_main)) = [1, 2, 3]"
    by (simp add: demo_ops_def init_main_def env0_def main_defs returned_ids_def)
  from session_ids_never_reused[OF h1 h2] h1 h3 show ?thesis
    by (simp add: demo_main_eval)
qed

section \<open>Properties of the layout tree\<close>

lemma attached_paneIds: "attached p x \<longleftrightarrow> p \<in> set (paneIds x)"
  by (induction x) auto

lemma wrapPane_not_pane: "wrapPane p h x \<noteq> PaneEl p"
  by (cases x) auto

lemma split_step_pane:
  "appendChild (SplitContainerOf p) (PaneEl n) (wrapPane p h c) = PaneEl n \<Longrightarrow> n \<noteq> p \<Longrightarrow>
     c = PaneEl n"
  by (cases c) (auto split: if_splits)

lemma split_then_close_el:
  assumes "n \<noteq> p" and "n \<notin> set (paneIds x)"
  shows "closeEl n (appendChild (SplitContainerOf p) (PaneEl n) (wrapPane p h x)) = [x]"
  using assms
proof (induction x)
  case (PaneEl q)
  then show ?case by auto
next
  case (Divider b)
  then show ?case by simp
next
  case (Container k cs)
  let ?g = "\<lambda>c. appendChild (SplitContainerOf p) (PaneEl n) (wrapPane p h c)"
  have no_p: "PaneEl p \<notin> set (map (wrapPane p h) cs)"
    by (metis (no_types, lifting) imageE list.set_map wrapPane_not_pane)
  have g: "?g (Container k cs) = Container k (map ?g cs)"
    using no_p by simp
  have no_n: "PaneEl n \<notin> set (map ?g cs)"
  proof
    assume "PaneEl n \<in> set (map ?g cs)"
    then obtain c where c: "c \<in> set cs" "?g c = PaneEl n" by auto
    then have "c = PaneEl n" using Container.prems(1) split_step_pane by blast
    with c(1) Container.prems(2) show False by auto
  qed
  have ih: "\<And>c. c \<in> set cs \<Longrightarrow> closeEl n (?g c) = [c]"
    using Container by auto
  have "concat (map (closeEl n) (map ?g cs)) = cs"
    using ih by (induction cs) auto
  then show ?case using no_n g by simp
qed

lemma split_then_close_dom:
  assumes "n \<noteq> p" and "\<forall>c \<in> set els. n \<notin> set (paneIds c)"
  shows "closeDom n (map (appendChild (SplitContainerOf p) (PaneEl n))
           (map (wrapPane p h) els)) = els"
proof -
  let ?g = "\<lambda>c. appendChild (SplitContainerOf p) (PaneEl n) (wrapPane p h c)"
  have no_n: "PaneEl n \<notin> set (map ?g els)"
  proof
    assume "PaneEl n \<in> set (map ?g els)"
    then obtain c where c: "c \<in> set els" "?g c = PaneEl n" by auto
    then have "c = PaneEl n" using assms(1) split_step_pane by blast
    with c(1) assms(2) show False by auto
  qed
  have "concat (map (closeEl n) (map ?g els)) = els"
    using assms split_then_close_el by (induction els) auto
  then show ?thesis using no_n by (simp add: closeDom_def comp_def)
qed

lemma attached_after_split:
  "attached p x \<Longrightarrow> attached n (appendChild (SplitContainerOf p) (PaneEl n) (wrapPane p h x))"
proof (induction x)
  case (Container k cs)
  then obtain c where c: "c \<in> set cs" "attached p c" by auto
  with Container.IH
  have "attached n (appendChild (SplitContainerOf p) (PaneEl n) (wrapPane p h c))"
    by blast
  with c(1) show ?case by auto
qed auto

lemma main_handle_step: "\<exists>op. main_step e op s = (None, main_handle m s)"
proof (cases m)
  case (TerminalDestroy k)
  then have "main_step e (Destroy k) s = (None, main_handle m s)" by simp
  then show ?thesis ..
next
  case (TerminalInput k d)
  then have "main_step e (Input k d) s = (None, main_handle m s)" by simp
  then show ?thesis ..
next
  case (TerminalResize k c r)
  then have "main_step e (Resize k c r) s = (None, main_handle m s)" by simp
  then show ?thesis ..
next
  case WindowClose
  then have "main_step e WindowCloseOp s = (None, main_handle m s)" by simp
  then show ?thesis ..
qed

lemma main_handle_bounded: "ids_bounded s \<Longrightarrow> ids_bounded (main_handle m s)"
  using main_handle_step step_bounded by blast

lemma foldl_handle_bounded:
  "ids_bounded s \<Longrightarrow> ids_bounded (foldl (\<lambda>s m. main_handle m s) s ms)"
  by (induction ms arbitrary: s) (auto simp: main_handle_bounded)

lemma flush_bounded: "ids_bounded (mainp w) \<Longrightarrow> ids_bounded (mainp (flush w))"
  by (simp add: flush_def foldl_handle_bounded)

text \<open>What a \<^verbatim>\<open>splitPane\<close> that did not fail on \<^verbatim>\<open>pty.spawn\<close> has done.\<close>

lemma splitPane_ok:
  assumes pn: "map_of (panes (rend w)) p = Some pn"
    and att: "\<exists>c \<in> set (paneContainer (rend w)). attached p c"
    and sp: "splitPane e p d w = (res, w1)"
    and ok: "res \<noteq> Inl SpawnError"
  defines "n \<equiv> paneIdCounter (rend w) + 1"
    and "m1 \<equiv> mainp (flush w)"
  defines "k \<equiv> terminalIdCounter m1 + 1"
  shows "res = Inr (Some n)"
    and "paneContainer (rend w1) =
           map (appendChild (SplitContainerOf p) (PaneEl n))
             (map (wrapPane p (d = utf16 ''vertical'')) (paneContainer (rend w)))"
    and "panes (rend w1) =
           AList.update n \<lparr>paneId = n, tabId = tabId pn, terminalId = k, terminal = []\<rparr>
             (panes (rend w))"
    and "outbox (rend w1) = []"
    and "tabs (rend w1) = tabs (rend w)"
    and "\<exists>en. ptyProcesses (mainp w1) = AList.update k en (ptyProcesses m1)"
  using pn att sp ok
  unfolding n_def k_def m1_def
  by (auto simp: splitPane_def getPaneCwd_def createPane_def flush_def terminal_create_def
        createPtyProcess_def Let_def focusPane_def refitAllPanesInTab_def update_conv'
      split: option.splits sum.splits prod.splits if_splits)

lemmas renderer_defs = init_world_def init_renderer_def init_main_def env0_def
  createTab_def splitPane_def createPane_def getFocusedPaneCwd_def getPaneCwd_def flush_def
  terminal_create_def createPtyProcess_def terminal_get_cwd_def trim_def isWhiteSpace_def utf16_def
  switchTab_def focusPane_def refitAllPanesInTab_def getPanesForTab_def Let_def

lemma demo_w1_eval:
  "createTab env0 (init_world 1) = (Inr 1, demo_w1)"
  "demo_w1 =
     \<lparr>mainp = \<lparr>ptyProcesses =
         [(1, \<lparr>pty = \<lparr>pid = 7, cwd = utf16 ''/home/u'', cols = 80, rows = 24, written = []\<rparr>,
               webContents = Some 1\<rparr>)],
        terminalIdCounter = 1, killed = [], sent = [], windowClosed = False\<rparr>,
      rend = \<lparr>panes = [(1, \<lparr>paneId = 1, tabId = 1, terminalId = 1, terminal = []\<rparr>)],
        paneIdCounter = 1, focusedPaneId = Some 1, tabs = [1], tabIdCounter = 1,
        activeTabId = Some 1, paneContainer = [Container (TabContent 1) [PaneEl 1]],
        timers = [(50, FitPane 1 1), (50, RefitTab 1)], outbox = [], senderId = 1\<rparr>\<rparr>"
  by (simp_all add: demo_w1_def renderer_defs)

lemma demo_w2_eval:
  "splitPane env0 1 (utf16 ''vertical'') demo_w1 = (Inr (Some 2), demo_w2)"
  "demo_w2 =
     \<lparr>mainp = \<lparr>ptyProcesses =
         [(1, \<lparr>pty = \<lparr>pid = 7, cwd = utf16 ''/home/u'', cols = 80, rows = 24, written = []\<rparr>,
               webContents = Some 1\<rparr>),
          (2, \<lparr>pty = \<lparr>pid = 7, cwd = utf16 ''/home/u'', cols = 80, rows = 24, written = []\<rparr>,
               webContents = Some 1\<rparr>)],
        terminalIdCounter = 2, killed = [], sent = [], windowClosed = False\<rparr>,
      rend = \<lparr>panes = [(1, \<lparr>paneId = 1, tabId = 1, terminalId = 1, terminal = []\<rparr>),
          (2, \<lparr>paneId = 2, tabId = 1, terminalId = 2, terminal = []\<rparr>)],
        paneIdCounter = 2, focusedPaneId = Some 2, tabs = [1], tabIdCounter = 1,
        activeTabId = Some 1,
        paneContainer = [Container (TabContent 1)
          [Container SplitHorizontal [PaneEl 1, Divider True, PaneEl 2]]],
        timers = [(50, FitPane 1 1), (50, RefitTab 1), (50, FitPane 2 2), (50, RefitTab 1)],
        outbox = [], senderId = 1\<rparr>\<rparr>"
  by (simp_all add: demo_w2_def demo_w1_eval(2) renderer_defs)

text \<open>
  C1. In a state whose ids are below their counters, let \<open>p\<close> be a pane whose element is in
  the tree. A \<^verbatim>\<open>splitPane\<close> of \<open>p\<close> that does not fail on \<^verbatim>\<open>pty.spawn\<close> returns a new pane id,
  and \<^verbatim>\<open>closePane\<close> of that id right after it succeeds and gives back the tree below
  \<^verbatim>\<open>#pane-container\<close> and the \<^verbatim>\<open>Map\<close> of panes exactly as they were before the split: the
  new pane and its element are gone, with them the split container and its divider, and
  once the \<^verbatim>\<open>terminal-destroy\<close> message is handled the table of sessions is the one from
  before the split.
\<close>

theorem split_then_close_restores:
  assumes fresh: "ids_fresh w"
    and pn: "map_of (panes (rend w)) p = Some pn"
    and att: "\<exists>c \<in> set (paneContainer (rend w)). attached p c"
    and sp: "splitPane e p d w = (res, w1)"
    and ok: "res \<noteq> Inl SpawnError"
  shows "\<exists>n r2. res = Inr (Some n) \<and> closePane n (rend w1) = (None, r2) \<and>
           paneContainer r2 = paneContainer (rend w) \<and>
           panes r2 = panes (rend w) \<and>
           tabs r2 = tabs (rend w) \<and>
           map_of (panes r2) n = None \<and>
           \<not> (\<exists>c \<in> set (paneContainer r2). attached n c) \<and>
           ptyProcesses (mainp (flush (w1\<lparr>rend := r2\<rparr>))) = ptyProcesses (mainp (flush w))"
proof -
  define n where "n = paneIdCounter (rend w) + 1"
  define m1 where "m1 = mainp (flush w)"
  define k where "k = terminalIdCounter m1 + 1"
  define h where "h = (d = utf16 ''vertical'')"
  define np where "np = \<lparr>paneId = n, tabId = tabId pn, terminalId = k, terminal = []\<rparr>"
  note s0 = splitPane_ok[OF pn att sp ok]
  have s: "res = Inr (Some n)"
    "paneContainer (rend w1) =
       map (appendChild (SplitContainerOf p) (PaneEl n))
         (map (wrapPane p h) (paneContainer (rend w)))"
    "panes (rend w1) = AList.update n np (panes (rend w))"
    "outbox (rend w1) = []"
    "tabs (rend w1) = tabs (rend w)"
    using s0(1-5) by (simp_all add: n_def m1_def k_def h_def np_def)
  from s0(6) obtain en where en: "ptyProcesses (mainp w1) = AList.update k en (ptyProcesses m1)"
    unfolding k_def m1_def by blast
  have n_key: "n \<notin> fst ` set (panes (rend w))"
    using fresh by (auto simp: ids_fresh_def n_def)
  have n_dom: "\<forall>c \<in> set (paneContainer (rend w)). n \<notin> set (paneIds c)"
    using fresh by (fastforce simp: ids_fresh_def n_def)
  have np': "n \<noteq> p"
    using pn n_key by (metis map_of_eq_None_iff option.distinct(1))
  have k_key: "k \<notin> fst ` set (ptyProcesses m1)"
    using flush_bounded[of w] fresh by (auto simp: ids_fresh_def ids_bounded_def k_def m1_def)
  have att_n: "\<exists>c \<in> set (paneContainer (rend w1)). attached n c"
    using att attached_after_split[of p _ n h] by (auto simp: s(2))
  have dom_back: "closeDom n (paneContainer (rend w1)) = paneContainer (rend w)"
    unfolding s(2) using split_then_close_dom[OF np' n_dom] .
  have panes_back: "AList.delete n (panes (rend w1)) = panes (rend w)"
    unfolding s(3) using n_key by (simp add: delete_update_same)
  have lookup: "map_of (panes (rend w1)) n = Some np"
    by (simp add: s(3) update_conv')
  obtain r2 where r2: "closePane n (rend w1) = (None, r2)"
    and r2_dom: "paneContainer r2 = paneContainer (rend w)"
    and r2_panes: "panes r2 = panes (rend w)"
    and r2_tabs: "tabs r2 = tabs (rend w)"
    and r2_out: "outbox r2 = [TerminalDestroy k]"
    using lookup att_n dom_back panes_back s(4) s(5)
    by (auto simp: closePane_def Let_def send_def refitAllPanesInTab_def focusPane_def np_def
          split: list.splits option.splits)
  have gone: "map_of (panes r2) n = None"
    using n_key by (simp add: r2_panes map_of_eq_None_iff)
  have gone_dom: "\<not> (\<exists>c \<in> set (paneContainer r2). attached n c)"
    using n_dom by (simp add: r2_dom attached_paneIds)
  have "ptyProcesses (mainp (flush (w1\<lparr>rend := r2\<rparr>))) = ptyProcesses m1"
    using k_key
    by (simp add: flush_def r2_out terminal_destroy_def en update_conv' delete_update_same)
  then show ?thesis
    using s(1) r2 r2_dom r2_panes r2_tabs gone gone_dom by (auto simp: m1_def)
qed

theorem split_then_close_restores_witness:
  "ids_fresh demo_w1 \<and>
   map_of (panes (rend demo_w1)) 1 =
     Some \<lparr>paneId = 1, tabId = 1, terminalId = 1, terminal = []\<rparr> \<and>
   (\<exists>c \<in> set (paneContainer (rend demo_w1)). attached 1 c) \<and>
   splitPane env0 1 (utf16 ''vertical'') demo_w1 = (Inr (Some 2), demo_w2) \<and>
   paneContainer (rend demo_w2) =
     [Container (TabContent 1) [Container SplitHorizontal [PaneEl 1, Divider True, PaneEl 2]]] \<and>
   fst (closePane 2 (rend demo_w2)) = None \<and>
   paneContainer (snd (closePane 2 (rend demo_w2))) = [Container (TabContent 1) [PaneEl 1]] \<and>
   panes (snd (closePane 2 (rend demo_w2))) = panes (rend demo_w1)"
proof -
  have h1: "ids_fresh demo_w1"
    by (simp add: ids_fresh_def ids_bounded_def demo_w1_eval(2))
  have h2: "map_of (panes (rend demo_w1)) 1 =
      Some \<lparr>paneId = 1, tabId = 1, terminalId = 1, terminal = []\<rparr>"
    by (simp add: demo_w1_eval(2))
  have h3: "\<exists>c \<in> set (paneContainer (rend demo_w1)). attached 1 c"
    by (simp add: demo_w1_eval(2))
  have h4: "splitPane env0 1 (utf16 ''vertical'') demo_w1 = (Inr (Some 2), demo_w2)"
    by (rule demo_w2_eval(1))
  have h5: "(Inr (Some 2) :: error + nat option) \<noteq> Inl SpawnError" by simp
  from split_then_close_restores[OF h1 h2 h3 h4 h5]
  obtain r2 where "closePane 2 (rend demo_w2) = (None, r2)"
    "paneContainer r2 = paneContainer (rend demo_w1)" "panes r2 = panes (rend demo_w1)"
    by auto
  then show ?thesis using h1 h2 h3 h4
    by (simp add: demo_w1_eval(2)) (simp add: demo_w2_eval(2))
qed

section \<open>Closing tabs and panes, and late events\<close>

lemma demo_t2_eval:
  "demo_t2 =
     \<lparr>mainp = \<lparr>ptyProcesses =
         [(1, \<lparr>pty = \<lparr>pid = 7, cwd = utf16 ''/home/u'', cols = 80, rows = 24, written = []\<rparr>,
               webContents = Some 1\<rparr>),
          (2, \<lparr>pty = \<lparr>pid = 7, cwd = utf16 ''/home/u'', cols = 80, rows = 24, written = []\<rparr>,
               webContents = Some 1\<rparr>)],
        terminalIdCounter = 2, killed = [], sent = [], windowClosed = False\<rparr>,
      rend = \<lparr>panes = [(1, \<lparr>paneId = 1, tabId = 1, terminalId = 1, terminal = []\<rparr>),
          (2, \<lparr>paneId = 2, tabId = 2, terminalId = 2, terminal = []\<rparr>)],
        paneIdCounter = 2, focusedPaneId = Some 2, tabs = [1, 2], tabIdCounter = 2,
        activeTabId = Some 2,
        paneContainer = [Container (TabContent 1) [PaneEl 1], Container (TabContent 2) [PaneEl 2]],
        timers = [(50, FitPane 1 1), (50, RefitTab 1), (50, FitPane 2 2), (50, RefitTab 2)],
        outbox = [], senderId = 1\<rparr>\<rparr>"
  by (simp add: demo_t2_def demo_w1_eval(2) renderer_defs)

lemma demo_t3_eval:
  "demo_t3 =
     \<lparr>mainp = \<lparr>ptyProcesses =
         [(1, \<lparr>pty = \<lparr>pid = 7, cwd = utf16 ''/home/u'', cols = 80, rows = 24, written = []\<rparr>,
               webContents = Some 1\<rparr>),
          (2, \<lparr>pty = \<lparr>pid = 7, cwd = utf16 ''/home/u'', cols = 80, rows = 24, written = []\<rparr>,
               webContents = Some 1\<rparr>),
          (3, \<lparr>pty = \<lparr>pid = 7, cwd = utf16 ''/home/u'', cols = 80, rows = 24, written = []\<rparr>,
               webContents = Some 1\<rparr>)],
        terminalIdCounter = 3, killed = [], sent = [], windowClosed = False\<rparr>,
      rend = \<lparr>panes = [(1, \<lparr>paneId = 1, tabId = 1, terminalId = 1, terminal = []\<rparr>),
          (2, \<lparr>paneId = 2, tabId = 2, terminalId = 2, terminal = []\<rparr>),
          (3, \<lparr>paneId = 3, tabId = 3, terminalId = 3, terminal = []\<rparr>)],
        paneIdCounter = 3, focusedPaneId = Some 3, tabs = [1, 2, 3], tabIdCounter = 3,
        activeTabId = Some 3,
        paneContainer = [Container (TabContent 1) [PaneEl 1], Container (TabContent 2) [PaneEl 2],
          Container (TabContent 3) [PaneEl 3]],
        timers = [(50, FitPane 1 1), (50, RefitTab 1), (50, FitPane 2 2), (50, RefitTab 2),
          (50, FitPane 3 3), (50, RefitTab 3)],
        outbox = [], senderId = 1\<rparr>\<rparr>"
  by (simp add: demo_t3_def demo_t2_eval renderer_defs)

lemma destroyAll_fold: "destroyAllPanesInTab t r = foldl destroyOne r (getPanesForTab t r)"
  by (simp add: destroyAllPanesInTab_def)

lemma foldl_destroyOne:
  "panes (foldl destroyOne r ps) = filter (\<lambda>(i, pn). i \<notin> paneId ` set ps) (panes r) \<and>
   outbox (foldl destroyOne r ps) = outbox r @ map (\<lambda>pn. TerminalDestroy (terminalId pn)) ps \<and>
   tabs (foldl destroyOne r ps) = tabs r \<and>
   activeTabId (foldl destroyOne r ps) = activeTabId r \<and>
   focusedPaneId (foldl destroyOne r ps) = focusedPaneId r \<and>
   timers (foldl destroyOne r ps) = timers r"
proof (induction ps arbitrary: r)
  case Nil
  then show ?case by simp
next
  case (Cons a ps)
  have "filter (\<lambda>(i, pn). i \<notin> paneId ` set ps) (AList.delete (paneId a) (panes r)) =
        filter (\<lambda>(i, pn). i \<notin> paneId ` set (a # ps)) (panes r)"
    by (auto simp: AList.delete_eq intro!: filter_cong)
  then show ?case using Cons.IH[of "destroyOne r a"]
    by (simp add: destroyOne_def send_def)
qed

lemma wf_key_tab:
  assumes "panes_wf r" and "(i, pn) \<in> set (panes r)"
  shows "i \<in> paneId ` set (getPanesForTab t r) \<longleftrightarrow> tabId pn = t"
proof
  assume "i \<in> paneId ` set (getPanesForTab t r)"
  then obtain pn' where pn': "pn' \<in> snd ` set (panes r)" "tabId pn' = t" "paneId pn' = i"
    by (auto simp: getPanesForTab_def)
  then obtain j where j: "(j, pn') \<in> set (panes r)" by auto
  with assms(1) pn'(3) have "j = i" by (auto simp: panes_wf_def)
  with j assms have "pn' = pn"
    by (metis panes_wf_def eq_key_imp_eq_value)
  with pn'(2) show "tabId pn = t" by simp
next
  assume "tabId pn = t"
  moreover have "paneId pn = i" using assms by (auto simp: panes_wf_def)
  ultimately show "i \<in> paneId ` set (getPanesForTab t r)"
    using assms(2) by (force simp: getPanesForTab_def)
qed

lemma destroyAll_panes:
  assumes "panes_wf r"
  shows "panes (destroyAllPanesInTab t r) = filter (\<lambda>(i, pn). tabId pn \<noteq> t) (panes r)"
proof -
  have "filter (\<lambda>(i, pn). i \<notin> paneId ` set (getPanesForTab t r)) (panes r) =
        filter (\<lambda>(i, pn). tabId pn \<noteq> t) (panes r)"
    using wf_key_tab[OF assms] by (auto intro!: filter_cong)
  then show ?thesis by (simp add: destroyAll_fold foldl_destroyOne)
qed

lemma foldl_destroy_main:
  "ptyProcesses (foldl (\<lambda>s m. main_handle m s) s (map TerminalDestroy ks)) =
     filter (\<lambda>(k, en). k \<notin> set ks) (ptyProcesses s)"
proof (induction ks arbitrary: s)
  case Nil
  then show ?case by simp
next
  case (Cons k ks)
  have "ptyProcesses (terminal_destroy k s) = AList.delete k (ptyProcesses s)"
    by (auto simp: terminal_destroy_def map_of_eq_None_iff split: option.splits)
  moreover have "filter (\<lambda>(k', en). k' \<notin> set ks) (AList.delete k (ptyProcesses s)) =
      filter (\<lambda>(k', en). k' \<notin> set (k # ks)) (ptyProcesses s)"
    by (auto simp: AList.delete_eq intro!: filter_cong)
  ultimately show ?case using Cons.IH[of "terminal_destroy k s"] by simp
qed

lemma switchTab_frame:
  "panes (switchTab t r) = panes r" "outbox (switchTab t r) = outbox r"
  "tabs (switchTab t r) = tabs r" "paneContainer (switchTab t r) = paneContainer r"
  "paneIdCounter (switchTab t r) = paneIdCounter r"
  "tabIdCounter (switchTab t r) = tabIdCounter r"
  "senderId (switchTab t r) = senderId r"
  by (simp_all add: switchTab_def Let_def focusPane_def refitAllPanesInTab_def
        split: list.splits option.splits)

lemma removeEl_id: "p \<notin> set (paneIds c) \<Longrightarrow> removeEl p c = c"
proof (induction c)
  case (Container k cs)
  then have "map (removeEl p) cs = cs" by (auto intro: map_idI)
  moreover have "PaneEl p \<notin> set cs" using Container.prems by force
  ultimately show ?case by (auto simp: filter_id_conv)
qed auto

lemma foldl_destroyOne_dom:
  assumes "c \<in> set (paneContainer r)" and "\<forall>pn \<in> set ps. paneId pn \<notin> set (paneIds c)"
  shows "c \<in> set (paneContainer (foldl destroyOne r ps))"
  using assms
proof (induction ps arbitrary: r)
  case Nil
  then show ?case by simp
next
  case (Cons a ps)
  have "removeEl (paneId a) c = c" using Cons.prems(2) by (simp add: removeEl_id)
  then have "c \<in> set (paneContainer (destroyOne r a))"
    using Cons.prems(1) by (force simp: destroyOne_def send_def)
  with Cons show ?case by simp
qed

text \<open>What \<^verbatim>\<open>closeTab\<close> does to a tab that is not the only one.\<close>

lemma closeTab_more:
  assumes wf: "panes_wf r" and t: "t \<in> set (tabs r)" and more: "1 < length (tabs r)"
  shows "outbox (closeTab t r) =
           outbox r @ map (\<lambda>pn. TerminalDestroy (terminalId pn)) (getPanesForTab t r)"
    and "panes (closeTab t r) = filter (\<lambda>(i, pn). tabId pn \<noteq> t) (panes r)"
    and "tabs (closeTab t r) = removeAll t (tabs r)"
    and "\<forall>c \<in> set (paneContainer r).
           \<not> isContentOf t c \<and> (\<forall>pn \<in> set (getPanesForTab t r). paneId pn \<notin> set (paneIds c))
           \<longrightarrow> c \<in> set (paneContainer (closeTab t r))"
proof -
  let ?ps = "getPanesForTab t r"
  let ?r1 = "destroyAllPanesInTab t r"
  let ?r2 = "?r1\<lparr>paneContainer := filter (\<lambda>c. \<not> isContentOf t c) (paneContainer ?r1),
                  tabs := removeAll t (tabs ?r1)\<rparr>"
  have ct: "closeTab t r = ?r2 \<or> (\<exists>t'. closeTab t r = switchTab t' ?r2)"
    using t more by (auto simp: closeTab_def Let_def split: list.splits)
  note f = foldl_destroyOne[of r ?ps]
  show "outbox (closeTab t r) = outbox r @ map (\<lambda>pn. TerminalDestroy (terminalId pn)) ?ps"
    using ct f by (auto simp: switchTab_frame destroyAll_fold)
  show "panes (closeTab t r) = filter (\<lambda>(i, pn). tabId pn \<noteq> t) (panes r)"
    using ct destroyAll_panes[OF wf, of t] by (auto simp: switchTab_frame)
  show "tabs (closeTab t r) = removeAll t (tabs r)"
    using ct f by (auto simp: switchTab_frame destroyAll_fold)
  show "\<forall>c \<in> set (paneContainer r).
      \<not> isContentOf t c \<and> (\<forall>pn \<in> set ?ps. paneId pn \<notin> set (paneIds c))
      \<longrightarrow> c \<in> set (paneContainer (closeTab t r))"
    using ct foldl_destroyOne_dom[of _ r ?ps]
    by (auto simp: switchTab_frame destroyAll_fold)
qed

text \<open>
  C7. Let \<open>t\<close> be an open tab. When it is the only tab, \<^verbatim>\<open>closeTab\<close> sends \<^verbatim>\<open>window-close\<close> and
  changes nothing else: the tab and its panes stay. Otherwise it sends one
  \<^verbatim>\<open>terminal-destroy\<close> for each pane of \<open>t\<close> and no other message, removes exactly the panes
  of \<open>t\<close> from \<^verbatim>\<open>panes\<close> and \<open>t\<close> from \<^verbatim>\<open>tabs\<close>, and leaves the content elements of the other
  tabs in place; a main process that handles these messages loses exactly the sessions
  of the panes of \<open>t\<close> and keeps every other entry as it is.
\<close>

theorem closeTab_destroys_own_sessions:
  assumes wf: "panes_wf r" and t: "t \<in> set (tabs r)"
  shows "(length (tabs r) \<le> 1 \<longrightarrow>
           closeTab t r = send WindowClose r \<and> tabs (closeTab t r) = [t] \<and>
           panes (closeTab t r) = panes r) \<and>
         (1 < length (tabs r) \<longrightarrow>
           outbox (closeTab t r) =
             outbox r @ map (\<lambda>pn. TerminalDestroy (terminalId pn)) (getPanesForTab t r) \<and>
           panes (closeTab t r) = filter (\<lambda>(i, pn). tabId pn \<noteq> t) (panes r) \<and>
           tabs (closeTab t r) = removeAll t (tabs r) \<and>
           (\<forall>c \<in> set (paneContainer r).
              \<not> isContentOf t c \<and>
              (\<forall>pn \<in> set (getPanesForTab t r). paneId pn \<notin> set (paneIds c))
              \<longrightarrow> c \<in> set (paneContainer (closeTab t r))) \<and>
           ptyProcesses (foldl (\<lambda>s m. main_handle m s) s
               (map (\<lambda>pn. TerminalDestroy (terminalId pn)) (getPanesForTab t r))) =
             filter (\<lambda>(k, en). k \<notin> terminalId ` set (getPanesForTab t r)) (ptyProcesses s))"
proof (intro conjI impI)
  assume last: "length (tabs r) \<le> 1"
  then show "closeTab t r = send WindowClose r" using t by (simp add: closeTab_def)
  from last t have "tabs r = [t]" by (cases "tabs r") auto
  then show "tabs (closeTab t r) = [t]" using t by (simp add: closeTab_def send_def)
  show "panes (closeTab t r) = panes r" using t last by (simp add: closeTab_def send_def)
next
  assume more: "1 < length (tabs r)"
  let ?ps = "getPanesForTab t r"
  note ct = closeTab_more[OF wf t more]
  show "outbox (closeTab t r) = outbox r @ map (\<lambda>pn. TerminalDestroy (terminalId pn)) ?ps"
    by (rule ct(1))
  show "panes (closeTab t r) = filter (\<lambda>(i, pn). tabId pn \<noteq> t) (panes r)"
    by (rule ct(2))
  show "tabs (closeTab t r) = removeAll t (tabs r)"
    by (rule ct(3))
  show "\<forall>c \<in> set (paneContainer r).
      \<not> isContentOf t c \<and> (\<forall>pn \<in> set ?ps. paneId pn \<notin> set (paneIds c))
      \<longrightarrow> c \<in> set (paneContainer (closeTab t r))"
    by (rule ct(4))
  show "ptyProcesses (foldl (\<lambda>s m. main_handle m s) s
               (map (\<lambda>pn. TerminalDestroy (terminalId pn)) ?ps)) =
             filter (\<lambda>(k, en). k \<notin> terminalId ` set ?ps) (ptyProcesses s)"
    using foldl_destroy_main[of s "map terminalId ?ps"] by (simp add: comp_def)
qed

theorem closeTab_destroys_own_sessions_witness:
  "panes_wf (rend demo_t3) \<and> 2 \<in> set (tabs (rend demo_t3)) \<and>
   1 < length (tabs (rend demo_t3)) \<and>
   outbox (closeTab 2 (rend demo_t3)) = [TerminalDestroy 2] \<and>
   map fst (panes (closeTab 2 (rend demo_t3))) = [1, 3] \<and>
   tabs (closeTab 2 (rend demo_t3)) = [1, 3] \<and>
   map fst (ptyProcesses (foldl (\<lambda>s m. main_handle m s) (mainp demo_t3)
      (outbox (closeTab 2 (rend demo_t3))))) = [1, 3] \<and>
   panes_wf (rend demo_w1) \<and> 1 \<in> set (tabs (rend demo_w1)) \<and>
   length (tabs (rend demo_w1)) \<le> 1 \<and>
   closeTab 1 (rend demo_w1) = send WindowClose (rend demo_w1) \<and>
   tabs (closeTab 1 (rend demo_w1)) = [1]"
proof -
  have h1: "panes_wf (rend demo_t3)" by (simp add: panes_wf_def demo_t3_eval)
  have h2: "2 \<in> set (tabs (rend demo_t3))" by (simp add: demo_t3_eval)
  have h3: "1 < length (tabs (rend demo_t3))" by (simp add: demo_t3_eval)
  have g1: "panes_wf (rend demo_w1)" by (simp add: panes_wf_def demo_w1_eval(2))
  have g2: "1 \<in> set (tabs (rend demo_w1))" by (simp add: demo_w1_eval(2))
  have g3: "length (tabs (rend demo_w1)) \<le> 1" by (simp add: demo_w1_eval(2))
  have ps: "getPanesForTab 2 (rend demo_t3) =
      [\<lparr>paneId = 2, tabId = 2, terminalId = 2, terminal = []\<rparr>]"
    by (simp add: getPanesForTab_def demo_t3_eval)
  from closeTab_destroys_own_sessions[OF h1 h2, of "mainp demo_t3"] h3
  have a: "outbox (closeTab 2 (rend demo_t3)) = [TerminalDestroy 2]"
    "map fst (panes (closeTab 2 (rend demo_t3))) = [1, 3]"
    "tabs (closeTab 2 (rend demo_t3)) = [1, 3]"
    "map fst (ptyProcesses (foldl (\<lambda>s m. main_handle m s) (mainp demo_t3)
       [TerminalDestroy 2])) = [1, 3]"
    by (simp_all add: ps) (simp_all add: demo_t3_eval)
  from closeTab_destroys_own_sessions[OF g1 g2, of "mainp demo_w1"] g3
  have b: "closeTab 1 (rend demo_w1) = send WindowClose (rend demo_w1)"
    "tabs (closeTab 1 (rend demo_w1)) = [1]"
    by blast+
  from a b h1 h2 h3 g1 g2 g3 show ?thesis by simp
qed

lemma writeFirst_none:
  "\<forall>(i, pn) \<in> set al. terminalId pn \<noteq> k \<Longrightarrow> writeFirst k x al = al"
  by (induction al) auto

lemma terminal_data_unbound:
  "\<forall>(i, pn) \<in> set (panes r). terminalId pn \<noteq> k \<Longrightarrow> terminal_data k d r = r"
  by (simp add: terminal_data_def writeFirst_none)

lemma wf_owner_unique:
  assumes "panes_wf r" and "(p, pn) \<in> set (panes r)" and "(i, pn') \<in> set (panes r)"
    and "terminalId pn' = terminalId pn"
  shows "i = p \<and> pn' = pn"
proof -
  have "inj_on (\<lambda>(i, pn). terminalId pn) (set (panes r))"
    using assms(1) by (simp add: panes_wf_def distinct_map)
  from inj_onD[OF this, of "(i, pn')" "(p, pn)"] assms(2-4) show ?thesis by simp
qed

lemma closePane_ok:
  assumes "map_of (panes r) p = Some pn" and "\<exists>c \<in> set (paneContainer r). attached p c"
    and "closePane p r = (res, r')"
  shows "res = None" and "outbox r' = outbox r @ [TerminalDestroy (terminalId pn)]"
    and "panes r' = AList.delete p (panes r)"
    and "paneContainer r' = closeDom p (paneContainer r)"
    and "tabs r' = tabs r" and "activeTabId r' = activeTabId r"
  using assms
  by (auto simp: closePane_def Let_def send_def refitAllPanesInTab_def focusPane_def
        split: list.splits option.splits if_splits)

text \<open>
  C2. Let \<open>k\<close> be the session of pane \<open>p\<close>. The two places that send \<^verbatim>\<open>terminal-destroy\<close>
  for \<open>k\<close> are \<^verbatim>\<open>closePane\<close> of \<open>p\<close> and \<^verbatim>\<open>closeTab\<close> of the tab of \<open>p\<close>; both take the pane
  out of \<^verbatim>\<open>panes\<close> in the same call. After either, a \<^verbatim>\<open>terminal-data\<close> event for \<open>k\<close> that
  was still on its way leaves the renderer as it is: no pane's terminal receives it, and
  the handler has no failing branch. In the main process, once \<^verbatim>\<open>terminal-destroy\<close> is
  handled \<open>k\<close> has no entry, and the \<^verbatim>\<open>onData\<close> callback of a session without entry sends
  nothing and changes nothing.
\<close>

theorem destroyed_session_data_dropped:
  assumes wf: "panes_wf r" and pn: "map_of (panes r) p = Some pn" and k: "terminalId pn = k"
  shows "(\<forall>res r'. (\<exists>c \<in> set (paneContainer r). attached p c) \<and> closePane p r = (res, r') \<longrightarrow>
            res = None \<and> outbox r' = outbox r @ [TerminalDestroy k] \<and>
            terminal_data k d r' = r') \<and>
         (tabId pn \<in> set (tabs r) \<and> 1 < length (tabs r) \<longrightarrow>
            TerminalDestroy k \<in> set (outbox (closeTab (tabId pn) r)) \<and>
            terminal_data k d (closeTab (tabId pn) r) = closeTab (tabId pn) r) \<and>
         map_of (ptyProcesses (main_handle (TerminalDestroy k) s)) k = None \<and>
         ptyOnData e k d (main_handle (TerminalDestroy k) s) = main_handle (TerminalDestroy k) s \<and>
         (map_of (ptyProcesses s) k = None \<longrightarrow> ptyOnData e k d s = s)"
proof -
  have mem: "(p, pn) \<in> set (panes r)" using pn by (rule map_of_SomeD)
  have a: "res = None \<and> outbox r' = outbox r @ [TerminalDestroy k] \<and> terminal_data k d r' = r'"
    if att: "\<exists>c \<in> set (paneContainer r). attached p c" and cl: "closePane p r = (res, r')"
    for res r'
  proof -
    note c = closePane_ok[OF pn att cl]
    have "\<forall>(i, pn') \<in> set (panes r'). terminalId pn' \<noteq> k"
    proof (clarify)
      fix i pn' assume in': "(i, pn') \<in> set (panes r')" and eq: "k = terminalId pn'"
      from in' have "(i, pn') \<in> set (panes r)" "i \<noteq> p"
        by (auto simp: c(3) AList.delete_eq)
      with wf_owner_unique[OF wf mem this(1)] k eq show False by simp
    qed
    then show ?thesis using c(1,2) k by (simp add: terminal_data_unbound)
  qed
  have b: "TerminalDestroy k \<in> set (outbox (closeTab (tabId pn) r)) \<and>
        terminal_data k d (closeTab (tabId pn) r) = closeTab (tabId pn) r"
    if t: "tabId pn \<in> set (tabs r)" and more: "1 < length (tabs r)"
  proof -
    note ct = closeTab_more[OF wf t more]
    have "pn \<in> set (getPanesForTab (tabId pn) r)"
      using mem by (force simp: getPanesForTab_def)
    then have "TerminalDestroy k \<in> set (outbox (closeTab (tabId pn) r))"
      using ct(1) k by auto
    moreover have "\<forall>(i, pn') \<in> set (panes (closeTab (tabId pn) r)). terminalId pn' \<noteq> k"
    proof (clarify)
      fix i pn' assume in': "(i, pn') \<in> set (panes (closeTab (tabId pn) r))"
        and eq: "k = terminalId pn'"
      from in' ct(2) have "(i, pn') \<in> set (panes r)" "tabId pn' \<noteq> tabId pn" by auto
      with wf_owner_unique[OF wf mem this(1)] k eq show False by simp
    qed
    ultimately show ?thesis by (simp add: terminal_data_unbound)
  qed
  have c: "map_of (ptyProcesses (main_handle (TerminalDestroy k) s)) k = None"
    by (simp add: terminal_destroy_def delete_conv' split: option.splits)
  have d: "map_of (ptyProcesses s') k = None \<Longrightarrow> ptyOnData e k d s' = s'" for s'
    by (simp add: ptyOnData_def)
  from a b c d[OF c] d[of s] show ?thesis by blast
qed

theorem destroyed_session_data_dropped_witness:
  "panes_wf (rend demo_w2) \<and>
   map_of (panes (rend demo_w2)) 2 =
     Some \<lparr>paneId = 2, tabId = 1, terminalId = 2, terminal = []\<rparr> \<and>
   (\<exists>c \<in> set (paneContainer (rend demo_w2)). attached 2 c) \<and>
   fst (closePane 2 (rend demo_w2)) = None \<and>
   outbox (snd (closePane 2 (rend demo_w2))) = [TerminalDestroy 2] \<and>
   terminal_data 2 (utf16 ''late'') (snd (closePane 2 (rend demo_w2))) = snd (closePane 2 (rend demo_w2)) \<and>
   map_of (ptyProcesses (main_handle (TerminalDestroy 2) (mainp demo_w2))) 2 = None \<and>
   ptyOnData env0 2 (utf16 ''late'') (main_handle (TerminalDestroy 2) (mainp demo_w2)) =
     main_handle (TerminalDestroy 2) (mainp demo_w2) \<and>
   terminal_data 2 (utf16 ''live'') (rend demo_w2) \<noteq> rend demo_w2"
proof -
  have h1: "panes_wf (rend demo_w2)" by (simp add: panes_wf_def demo_w2_eval(2))
  have h2: "map_of (panes (rend demo_w2)) 2 =
      Some \<lparr>paneId = 2, tabId = 1, terminalId = 2, terminal = []\<rparr>"
    by (simp add: demo_w2_eval(2))
  have h3: "terminalId \<lparr>paneId = 2, tabId = 1, terminalId = 2, terminal = []\<rparr> = 2" by simp
  have h4: "\<exists>c \<in> set (paneContainer (rend demo_w2)). attached 2 c"
    by (simp add: demo_w2_eval(2))
  have h5: "closePane 2 (rend demo_w2) =
      (fst (closePane 2 (rend demo_w2)), snd (closePane 2 (rend demo_w2)))" by simp
  have h6: "outbox (rend demo_w2) = []" by (simp add: demo_w2_eval(2))
  have live: "terminal_data 2 (utf16 ''live'') (rend demo_w2) \<noteq> rend demo_w2"
    by (simp add: terminal_data_def demo_w2_eval(2))
  from destroyed_session_data_dropped[OF h1 h2 h3, of "(utf16 ''late'')" "mainp demo_w2" env0] h4 h5 h6
  have "fst (closePane 2 (rend demo_w2)) = None \<and>
     outbox (snd (closePane 2 (rend demo_w2))) = [TerminalDestroy 2] \<and>
     terminal_data 2 (utf16 ''late'') (snd (closePane 2 (rend demo_w2))) =
       snd (closePane 2 (rend demo_w2)) \<and>
     map_of (ptyProcesses (main_handle (TerminalDestroy 2) (mainp demo_w2))) 2 = None \<and>
     ptyOnData env0 2 (utf16 ''late'') (main_handle (TerminalDestroy 2) (mainp demo_w2)) =
       main_handle (TerminalDestroy 2) (mainp demo_w2)"
    by (metis append_Nil)
  with h1 h2 h4 live show ?thesis by blast
qed

section \<open>Process exit\<close>





section \<open>The working directory of a new terminal\<close>

lemma get_cwd_live:
  "terminal_get_cwd e (terminalId pn) s = live_cwd e s (Some pn)"
  by (simp add: terminal_get_cwd_def live_cwd_def Let_def split: option.splits)

lemma live_cwd_nonempty: "live_cwd e s src \<noteq> Some []"
  by (simp add: live_cwd_def split: option.splits)

lemma getPaneCwd_live:
  "map_of (panes (rend w)) p = Some pn \<Longrightarrow>
     getPaneCwd e p w = (live_cwd e (mainp (flush w)) (Some pn), flush w)"
  by (simp add: getPaneCwd_def Let_def get_cwd_live)

lemma live_cwd_None [simp]: "live_cwd e s None = None"
  by (simp add: live_cwd_def)

lemma getFocusedPaneCwd_live:
  "fst (getFocusedPaneCwd e w) = live_cwd e (mainp (flush w)) (focusedPane (rend w))"
  by (simp add: getFocusedPaneCwd_def focusedPane_def getPaneCwd_def Let_def get_cwd_live
        split: option.splits)

lemma createPane_cwd:
  assumes "createPane e t c dir w = (Inr n, w')" and "dir \<noteq> Some []"
  shows "\<exists>pn en. map_of (panes (rend w')) n = Some pn \<and> tabId pn = t \<and>
           n = paneIdCounter (rend w') \<and>
           map_of (ptyProcesses (mainp w')) (terminalId pn) = Some en \<and>
           cwd (pty en) = (case dir of None \<Rightarrow> homedir e | Some c \<Rightarrow> c)"
  using assms
  by (auto simp: createPane_def flush_def terminal_create_def createPtyProcess_def Let_def
        focusPane_def update_conv'
      split: option.splits sum.splits prod.splits if_splits)

text \<open>
  C8. The two callers of \<^verbatim>\<open>createPane\<close> are \<^verbatim>\<open>splitPane\<close> and \<^verbatim>\<open>createTab\<close>. When
  \<^verbatim>\<open>splitPane\<close> of pane \<open>p\<close> returns the new pane \<open>n\<close>, the session of \<open>n\<close> was started in the
  live working directory of \<open>p\<close>: the directory that \<^verbatim>\<open>lsof\<close> reports, with the white space
  around it removed, for the process of the session of \<open>p\<close> in the main process that has
  handled the messages sent before. When \<^verbatim>\<open>createTab\<close> returns the new tab, the session
  of its pane (the pane with the newest id) was started in the live working directory
  of the pane that had the focus. In both cases the session was started in the home
  directory when there is no live directory: no source pane, a session that is gone, a
  probe that fails or prints nothing but white space.
\<close>

theorem new_terminal_inherits_cwd:
  "(splitPane e p d w = (Inr (Some n), wa) \<longrightarrow>
      (\<exists>pn en. map_of (panes (rend wa)) n = Some pn \<and>
         map_of (ptyProcesses (mainp wa)) (terminalId pn) = Some en \<and>
         cwd (pty en) = inherited_cwd e (mainp (flush w)) (map_of (panes (rend w)) p))) \<and>
   (createTab e w = (Inr t, wb) \<longrightarrow>
      (\<exists>pn en. map_of (panes (rend wb)) (paneIdCounter (rend wb)) = Some pn \<and> tabId pn = t \<and>
         map_of (ptyProcesses (mainp wb)) (terminalId pn) = Some en \<and>
         cwd (pty en) = inherited_cwd e (mainp (flush w)) (focusedPane (rend w))))"
proof (intro conjI impI)
  assume sp: "splitPane e p d w = (Inr (Some n), wa)"
  then obtain src where src: "map_of (panes (rend w)) p = Some src"
    by (auto simp: splitPane_def split: option.splits)
  let ?q = "live_cwd e (mainp (flush w)) (Some src)"
  let ?w2 = "(flush w)\<lparr>rend := (rend (flush w))\<lparr>paneContainer :=
      map (wrapPane p (d = utf16 ''vertical'')) (paneContainer (rend (flush w)))\<rparr>\<rparr>"
  from sp src obtain w3 where cp: "createPane e (tabId src) (SplitContainerOf p) ?q ?w2 = (Inr n, w3)"
    and wa: "wa = w3\<lparr>rend := refitAllPanesInTab (tabId src) (rend w3)\<rparr>"
    by (auto simp: splitPane_def getPaneCwd_live Let_def split: if_splits prod.splits sum.splits)
  from createPane_cwd[OF cp live_cwd_nonempty]
  show "\<exists>pn en. map_of (panes (rend wa)) n = Some pn \<and>
         map_of (ptyProcesses (mainp wa)) (terminalId pn) = Some en \<and>
         cwd (pty en) = inherited_cwd e (mainp (flush w)) (map_of (panes (rend w)) p)"
    by (auto simp: wa src inherited_cwd_def refitAllPanesInTab_def)
next
  assume ct: "createTab e w = (Inr t, wb)"
  obtain q w1 where g: "getFocusedPaneCwd e w = (q, w1)" by (cases "getFocusedPaneCwd e w")
  have q: "q = live_cwd e (mainp (flush w)) (focusedPane (rend w))"
    using g getFocusedPaneCwd_live[of e w] by simp
  have ne: "q \<noteq> Some []" unfolding q by (rule live_cwd_nonempty)
  let ?t = "tabIdCounter (rend w1) + 1"
  let ?w2 = "w1\<lparr>rend := (rend w1)\<lparr>tabIdCounter := ?t,
      paneContainer := paneContainer (rend w1) @ [Container (TabContent ?t) []],
      tabs := (if ?t \<in> set (tabs (rend w1)) then tabs (rend w1) else tabs (rend w1) @ [?t])\<rparr>\<rparr>"
  obtain res w3 where cp0: "createPane e ?t (ContentElement ?t) q ?w2 = (res, w3)"
    by (cases "createPane e ?t (ContentElement ?t) q ?w2")
  have ctd: "createTab e w =
      (case res of Inl err \<Rightarrow> (Inl err, w3)
       | Inr p \<Rightarrow> (Inr ?t, w3\<lparr>rend := switchTab ?t (rend w3)\<rparr>))"
    by (simp only: createTab_def Let_def g prod.case cp0)
  note eq = trans[OF ctd[symmetric] ct]
  obtain n where res: "res = Inr n"
    and wb: "wb = w3\<lparr>rend := switchTab ?t (rend w3)\<rparr>" and tt: "t = ?t"
  proof (cases res)
    case (Inl err)
    with eq show ?thesis by simp
  next
    case (Inr n)
    with eq have "wb = w3\<lparr>rend := switchTab ?t (rend w3)\<rparr>" "t = ?t" by auto
    with Inr that show ?thesis by blast
  qed
  note cp = cp0[unfolded res]
  from createPane_cwd[OF cp ne]
  show "\<exists>pn en. map_of (panes (rend wb)) (paneIdCounter (rend wb)) = Some pn \<and> tabId pn = t \<and>
         map_of (ptyProcesses (mainp wb)) (terminalId pn) = Some en \<and>
         cwd (pty en) = inherited_cwd e (mainp (flush w)) (focusedPane (rend w))"
    by (auto simp: wb tt q inherited_cwd_def switchTab_frame)
qed

lemma demo_c1_eval:
  "demo_c1 =
     \<lparr>mainp = \<lparr>ptyProcesses =
         [(1, \<lparr>pty = \<lparr>pid = 11, cwd = utf16 ''/home/u'', cols = 80, rows = 24, written = []\<rparr>,
               webContents = Some 1\<rparr>)],
        terminalIdCounter = 1, killed = [], sent = [], windowClosed = False\<rparr>,
      rend = \<lparr>panes = [(1, \<lparr>paneId = 1, tabId = 1, terminalId = 1, terminal = []\<rparr>)],
        paneIdCounter = 1, focusedPaneId = Some 1, tabs = [1], tabIdCounter = 1,
        activeTabId = Some 1, paneContainer = [Container (TabContent 1) [PaneEl 1]],
        timers = [(50, FitPane 1 1), (50, RefitTab 1)], outbox = [], senderId = 1\<rparr>\<rparr>"
  by (simp add: demo_c1_def env_dirs_def renderer_defs)

lemma demo_c2_eval:
  "demo_c2 =
     \<lparr>mainp = \<lparr>ptyProcesses =
         [(1, \<lparr>pty = \<lparr>pid = 11, cwd = utf16 ''/home/u'', cols = 80, rows = 24, written = []\<rparr>,
               webContents = Some 1\<rparr>),
          (2, \<lparr>pty = \<lparr>pid = 12, cwd = utf16 ''/srv/app'', cols = 80, rows = 24, written = []\<rparr>,
               webContents = Some 1\<rparr>)],
        terminalIdCounter = 2, killed = [], sent = [], windowClosed = False\<rparr>,
      rend = \<lparr>panes = [(1, \<lparr>paneId = 1, tabId = 1, terminalId = 1, terminal = []\<rparr>),
          (2, \<lparr>paneId = 2, tabId = 1, terminalId = 2, terminal = []\<rparr>)],
        paneIdCounter = 2, focusedPaneId = Some 2, tabs = [1], tabIdCounter = 1,
        activeTabId = Some 1,
        paneContainer = [Container (TabContent 1)
          [Container SplitHorizontal [PaneEl 1, Divider True, PaneEl 2]]],
        timers = [(50, FitPane 1 1), (50, RefitTab 1), (50, FitPane 2 2), (50, RefitTab 1)],
        outbox = [], senderId = 1\<rparr>\<rparr>"
  by (simp add: demo_c2_def demo_c1_eval env_dirs_def renderer_defs)

lemma demo_c3_eval:
  "demo_c3 = demo_c2\<lparr>mainp := (mainp demo_c2)\<lparr>ptyProcesses :=
       [(1, \<lparr>pty = \<lparr>pid = 11, cwd = utf16 ''/home/u'', cols = 80, rows = 24, written = []\<rparr>,
               webContents = Some 1\<rparr>)],
     sent := [(1, TerminalExit 2 0)]\<rparr>\<rparr>"
  by (simp add: demo_c3_def demo_c2_eval ptyOnExit_def env_dirs_def env0_def AList.delete_eq)

theorem new_terminal_inherits_cwd_witness:
  "map (\<lambda>(i, pn). (i, terminalId pn)) (panes (rend demo_c2)) = [(1, 1), (2, 2)] \<and>
   map (\<lambda>(k, en). (k, pid (pty en))) (ptyProcesses (mainp demo_c2)) = [(1, 11), (2, 12)] \<and>
   focusedPaneId (rend demo_c2) = Some 2 \<and>
   fst (splitPane (env_dirs 13) 1 (utf16 ''horizontal'') demo_c2) = Inr (Some 3) \<and>
   map_option (\<lambda>en. cwd (pty en))
     (map_of (ptyProcesses (mainp (snd (splitPane (env_dirs 13) 1 (utf16 ''horizontal'') demo_c2))))
        3) = Some (utf16 ''/srv/app'') \<and>
   fst (createTab (env_dirs 13) demo_c2) = Inr 2 \<and>
   map_option (\<lambda>en. cwd (pty en))
     (map_of (ptyProcesses (mainp (snd (createTab (env_dirs 13) demo_c2)))) 3) =
     Some (utf16 ''/var/log'') \<and>
   fst (createTab (env_dirs 13) demo_c3) = Inr 2 \<and>
   map_option (\<lambda>en. cwd (pty en))
     (map_of (ptyProcesses (mainp (snd (createTab (env_dirs 13) demo_c3)))) 3) =
     Some (utf16 ''/home/u'') \<and>
   fst (createTab env_noprobe demo_c2) = Inr 2 \<and>
   map_option (\<lambda>en. cwd (pty en))
     (map_of (ptyProcesses (mainp (snd (createTab env_noprobe demo_c2)))) 3) =
     Some (utf16 ''/home/u'')"
proof -
  let ?e = "env_dirs 13"
  let ?s = "splitPane ?e 1 (utf16 ''horizontal'') demo_c2"
  let ?c = "createTab ?e demo_c2"
  let ?x = "createTab ?e demo_c3"
  let ?n = "createTab env_noprobe demo_c2"
  note defs = env_dirs_def env_noprobe_def demo_c3_eval demo_c2_eval renderer_defs
  have s1: "?s = (Inr (Some 3), snd ?s)"
    and s2: "map_option terminalId (map_of (panes (rend (snd ?s))) 3) = Some 3"
    and s3: "inherited_cwd ?e (mainp (flush demo_c2)) (map_of (panes (rend demo_c2)) 1) =
       utf16 ''/srv/app''"
    by (simp_all add: defs inherited_cwd_def live_cwd_def)
  have c1: "?c = (Inr 2, snd ?c)"
    and c2: "paneIdCounter (rend (snd ?c)) = 3"
      "map_option terminalId (map_of (panes (rend (snd ?c))) 3) = Some 3"
    and c3: "inherited_cwd ?e (mainp (flush demo_c2)) (focusedPane (rend demo_c2)) =
       utf16 ''/var/log''"
    by (simp_all add: defs inherited_cwd_def live_cwd_def focusedPane_def)
  have x1: "?x = (Inr 2, snd ?x)"
    and x2: "paneIdCounter (rend (snd ?x)) = 3"
      "map_option terminalId (map_of (panes (rend (snd ?x))) 3) = Some 3"
    and x3: "inherited_cwd ?e (mainp (flush demo_c3)) (focusedPane (rend demo_c3)) =
       utf16 ''/home/u''"
    by (simp_all add: defs inherited_cwd_def live_cwd_def focusedPane_def)
  have n1: "?n = (Inr 2, snd ?n)"
    and n2: "paneIdCounter (rend (snd ?n)) = 3"
      "map_option terminalId (map_of (panes (rend (snd ?n))) 3) = Some 3"
    and n3: "inherited_cwd env_noprobe (mainp (flush demo_c2)) (focusedPane (rend demo_c2)) =
       utf16 ''/home/u''"
    by (simp_all add: defs inherited_cwd_def live_cwd_def focusedPane_def)
  have st: "map (\<lambda>(i, pn). (i, terminalId pn)) (panes (rend demo_c2)) = [(1, 1), (2, 2)]"
    "map (\<lambda>(k, en). (k, pid (pty en))) (ptyProcesses (mainp demo_c2)) = [(1, 11), (2, 12)]"
    "focusedPaneId (rend demo_c2) = Some 2"
    by (simp_all add: demo_c2_eval)
  note ts = new_terminal_inherits_cwd[where e = ?e and p = 1 and d = "utf16 ''horizontal''"
      and w = demo_c2 and n = 3 and wa = "snd ?s" and t = 2 and wb = "snd ?c"]
  note tx = new_terminal_inherits_cwd[where e = ?e and p = 1 and d = "utf16 ''horizontal''"
      and w = demo_c3 and n = 3 and wa = "snd ?s" and t = 2 and wb = "snd ?x"]
  note tn = new_terminal_inherits_cwd[where e = env_noprobe and p = 1
      and d = "utf16 ''horizontal''" and w = demo_c2 and n = 3 and wa = "snd ?s" and t = 2
      and wb = "snd ?n"]
  from ts s1 obtain pn en where a: "map_of (panes (rend (snd ?s))) 3 = Some pn"
    "map_of (ptyProcesses (mainp (snd ?s))) (terminalId pn) = Some en"
    "cwd (pty en) = utf16 ''/srv/app''"
    unfolding s3 by blast
  from a(1) s2 have "terminalId pn = 3" by simp
  with a(2,3) have A: "map_option (\<lambda>en. cwd (pty en))
     (map_of (ptyProcesses (mainp (snd ?s))) 3) = Some (utf16 ''/srv/app'')" by simp
  from ts c1 obtain pn' en' where b: "map_of (panes (rend (snd ?c))) 3 = Some pn'"
    "map_of (ptyProcesses (mainp (snd ?c))) (terminalId pn') = Some en'"
    "cwd (pty en') = utf16 ''/var/log''"
    unfolding c3 c2(1) by blast
  from b(1) c2(2) have "terminalId pn' = 3" by simp
  with b(2,3) have B: "map_option (\<lambda>en. cwd (pty en))
     (map_of (ptyProcesses (mainp (snd ?c))) 3) = Some (utf16 ''/var/log'')" by simp
  from tx x1 obtain pn2 en2 where c: "map_of (panes (rend (snd ?x))) 3 = Some pn2"
    "map_of (ptyProcesses (mainp (snd ?x))) (terminalId pn2) = Some en2"
    "cwd (pty en2) = utf16 ''/home/u''"
    unfolding x3 x2(1) by blast
  from c(1) x2(2) have "terminalId pn2 = 3" by simp
  with c(2,3) have C: "map_option (\<lambda>en. cwd (pty en))
     (map_of (ptyProcesses (mainp (snd ?x))) 3) = Some (utf16 ''/home/u'')" by simp
  from tn n1 obtain pn3 en3 where d: "map_of (panes (rend (snd ?n))) 3 = Some pn3"
    "map_of (ptyProcesses (mainp (snd ?n))) (terminalId pn3) = Some en3"
    "cwd (pty en3) = utf16 ''/home/u''"
    unfolding n3 n2(1) by blast
  from d(1) n2(2) have "terminalId pn3 = 3" by simp
  with d(2,3) have D: "map_option (\<lambda>en. cwd (pty en))
     (map_of (ptyProcesses (mainp (snd ?n))) 3) = Some (utf16 ''/home/u'')" by simp
  from s1 c1 x1 n1 have "fst ?s = Inr (Some 3)" "fst ?c = Inr 2" "fst ?x = Inr 2" "fst ?n = Inr 2"
    by (metis fst_conv)+
  with st A B C D show ?thesis by blast
qed

section \<open>Moving the focus\<close>

lemma demo_w3_eval:
  "splitPane env0 1 (utf16 ''horizontal'') demo_w2 = (Inr (Some 3), demo_w3)"
  "demo_w3 =
     \<lparr>mainp = \<lparr>ptyProcesses =
         [(1, \<lparr>pty = \<lparr>pid = 7, cwd = utf16 ''/home/u'', cols = 80, rows = 24, written = []\<rparr>,
               webContents = Some 1\<rparr>),
          (2, \<lparr>pty = \<lparr>pid = 7, cwd = utf16 ''/home/u'', cols = 80, rows = 24, written = []\<rparr>,
               webContents = Some 1\<rparr>),
          (3, \<lparr>pty = \<lparr>pid = 7, cwd = utf16 ''/home/u'', cols = 80, rows = 24, written = []\<rparr>,
               webContents = Some 1\<rparr>)],
        terminalIdCounter = 3, killed = [], sent = [], windowClosed = False\<rparr>,
      rend = \<lparr>panes = [(1, \<lparr>paneId = 1, tabId = 1, terminalId = 1, terminal = []\<rparr>),
          (2, \<lparr>paneId = 2, tabId = 1, terminalId = 2, terminal = []\<rparr>),
          (3, \<lparr>paneId = 3, tabId = 1, terminalId = 3, terminal = []\<rparr>)],
        paneIdCounter = 3, focusedPaneId = Some 3, tabs = [1], tabIdCounter = 1,
        activeTabId = Some 1,
        paneContainer = [Container (TabContent 1)
          [Container SplitHorizontal
            [Container SplitVertical [PaneEl 1, Divider False, PaneEl 3],
             Divider True, PaneEl 2]]],
        timers = [(50, FitPane 1 1), (50, RefitTab 1), (50, FitPane 2 2), (50, RefitTab 1),
          (50, FitPane 3 3), (50, RefitTab 1)],
        outbox = [], senderId = 1\<rparr>\<rparr>"
  by (simp_all add: demo_w3_def demo_w2_eval(2) renderer_defs)

lemma demo_focus1_eval:
  "demo_focus1 = (rend demo_w3)\<lparr>focusedPaneId := Some 1\<rparr>"
  by (simp add: demo_focus1_def focusPane_def demo_w3_eval(2))

lemma pos_paneId_panePosition [simp]: "pos_paneId (panePosition e pn) = paneId pn"
  by (simp add: panePosition_def Let_def)

lemma wf_tab_pane:
  assumes wf: "panes_wf r" and "pn \<in> set (getPanesForTab t r)"
  shows "map_of (panes r) (paneId pn) = Some pn \<and> paneId pn \<noteq> 0"
proof -
  from assms(2) obtain i where i: "(i, pn) \<in> set (panes r)"
    by (auto simp: getPanesForTab_def)
  with wf have "paneId pn = i" "i \<noteq> 0" by (auto simp: panes_wf_def)
  moreover from wf i have "map_of (panes r) i = Some pn" by (simp add: panes_wf_def)
  ultimately show ?thesis by simp
qed

lemma wf_find_current:
  assumes wf: "panes_wf r" and cur: "map_of (panes r) f = Some cp"
  shows "find (\<lambda>p. pos_paneId p = f) (map (panePosition e) (getPanesForTab (tabId cp) r)) =
           Some (panePosition e cp)"
proof -
  let ?L = "getPanesForTab (tabId cp) r"
  have mem: "(f, cp) \<in> set (panes r)" using cur by (rule map_of_SomeD)
  then have cpL: "cp \<in> set ?L" by (force simp: getPanesForTab_def)
  have idf: "paneId cp = f" using wf mem by (auto simp: panes_wf_def)
  show ?thesis
  proof (cases "find (\<lambda>p. pos_paneId p = f) (map (panePosition e) ?L)")
    case None
    then have "\<forall>x \<in> set (map (panePosition e) ?L). pos_paneId x \<noteq> f"
      by (simp add: find_None_iff)
    with cpL idf show ?thesis by auto
  next
    case (Some x)
    then have xin: "x \<in> panePosition e ` set ?L" and xf: "pos_paneId x = f"
      by (auto simp: find_Some_iff)
    from xin obtain pn where pn0: "pn \<in> set ?L" "x = panePosition e pn" by (rule imageE)
    with xf have pn: "pn \<in> set ?L" "x = panePosition e pn" "paneId pn = f" by simp_all
    from wf_tab_pane[OF wf pn(1)] pn(3) cur have "pn = cp" by simp
    with Some pn(2) show ?thesis by simp
  qed
qed

lemma centre_bounded:
  assumes "finite_rect rc"
  shows "dbounded 1001 (fst (centre rc))" "dbounded 1001 (snd (centre rc))"
proof -
  have k: "(1000::nat) \<le> 1023" "(1000::nat) < 1023" "Suc 1000 = 1001" by simp_all
  from assms have "dbounded 1000 (rect_left rc)" "dbounded 1000 (dhalf (rect_width rc))"
      "dbounded 1000 (rect_top rc)" "dbounded 1000 (dhalf (rect_height rc))"
    by (simp_all add: finite_rect_def dbounded_half)
  then show "dbounded 1001 (fst (centre rc))" "dbounded 1001 (snd (centre rc))"
    using dbounded_add[of 1000, OF _ _ k(2)] by (simp_all add: centre_def k(3))
qed

lemma delta_bounded:
  assumes "finite_rect (getBoundingClientRect e f)" "finite_rect (getBoundingClientRect e c)"
  shows "dbounded 1002 (fst (delta e f c))" "dbounded 1002 (snd (delta e f c))"
proof -
  have k: "(1001::nat) < 1023" "Suc 1001 = 1002" by simp_all
  note cf = centre_bounded[OF assms(1)] and cc = centre_bounded[OF assms(2)]
  show "dbounded 1002 (fst (delta e f c))" "dbounded 1002 (snd (delta e f c))"
    using dbounded_sub[OF cc(1) cf(1) k(1)] dbounded_sub[OF cc(2) cf(2) k(1)]
    by (simp_all add: delta_def k(2))
qed

lemma score_bounded:
  assumes "finite_rect (getBoundingClientRect e f)" "finite_rect (getBoundingClientRect e c)"
  shows "dbounded 1003 (score e dir f c)"
proof -
  have k: "(1002::nat) < 1023" "Suc 1002 = 1003" "(1002::nat) \<le> 1023" by simp_all
  note d = delta_bounded[OF assms]
  have p: "dbounded 1002 (dabs (primary dir (delta e f c)))"
    using d by (cases dir) (simp_all add: primary_def dbounded_abs dbounded_neg)
  have "dbounded 1002 (dabs (cross dir (delta e f c)))"
    using d by (cases dir) (simp_all add: cross_def dbounded_abs)
  then have "dbounded 1002 (dmul (Finite (1 / 2)) (dabs (cross dir (delta e f c))))"
    using k(3) by (rule dbounded_mul_half)
  from dbounded_add[OF p this k(1)] show ?thesis by (simp add: score_def k(2))
qed

lemma score_finite:
  assumes "finite_rect (getBoundingClientRect e f)" "finite_rect (getBoundingClientRect e c)"
  shows "\<exists>q. score e dir f c = Finite q"
  using score_bounded[OF assms, of dir] by (auto simp: dbounded_iff)

lemma scan_step:
  assumes "paneId cp = f"
  shows "scan dir f (panePosition e cp) (panePosition e pn # ps) (b, s) =
     (if paneId pn \<noteq> f \<and> eligible e dir f (paneId pn) \<and> dlt (score e dir f (paneId pn)) s
      then scan dir f (panePosition e cp) ps (Some (paneId pn), score e dir f (paneId pn))
      else scan dir f (panePosition e cp) ps (b, s))"
  using assms
  by (cases dir)
     (auto simp: eligible_def score_def primary_def cross_def delta_def centre_def
        panePosition_def Let_def dlt_neg dabs_dneg dmul_commute[of "Finite (1 / 2)"]
        dsub_def)

lemma scan_keep:
  assumes "paneId cp = f"
    and "\<forall>pn \<in> set L. paneId pn \<noteq> f \<and> eligible e dir f (paneId pn) \<longrightarrow>
           \<not> dlt (score e dir f (paneId pn)) s"
  shows "scan dir f (panePosition e cp) (map (panePosition e) L) (b, s) = (b, s)"
  using assms(2)
proof (induction L)
  case Nil
  then show ?case by simp
next
  case (Cons pn L)
  then show ?case by (simp only: list.map scan_step[OF assms(1)]) auto
qed

lemma scan_pre:
  assumes "paneId cp = f"
    and "\<forall>pn \<in> set pre. paneId pn \<noteq> f \<and> eligible e dir f (paneId pn) \<longrightarrow>
           dlt v (score e dir f (paneId pn))"
    and "dlt v s"
  shows "\<exists>b' s'. dlt v s' \<and>
           scan dir f (panePosition e cp) (map (panePosition e) (pre @ rest)) (b, s) =
           scan dir f (panePosition e cp) (map (panePosition e) rest) (b', s')"
  using assms(2,3)
proof (induction pre arbitrary: b s)
  case Nil
  then show ?case by auto
next
  case (Cons pn pre)
  show ?case
  proof (cases "paneId pn \<noteq> f \<and> eligible e dir f (paneId pn) \<and>
      dlt (score e dir f (paneId pn)) s")
    case True
    then have "dlt v (score e dir f (paneId pn))" using Cons.prems(1) by simp
    from Cons.IH[OF _ this] Cons.prems(1) True show ?thesis
      by (simp only: append_Cons list.map scan_step[OF assms(1)]) auto
  next
    case False
    from Cons.IH[OF _ Cons.prems(2)] Cons.prems(1) False show ?thesis
      by (simp only: append_Cons list.map scan_step[OF assms(1)]) auto
  qed
qed

lemma scan_first_min:
  assumes cp: "paneId cp = f"
    and "paneId bp \<noteq> f" and "eligible e dir f (paneId bp)"
    and fin: "dlt (score e dir f (paneId bp)) PosInf"
    and pre: "\<forall>pn \<in> set pre. paneId pn \<noteq> f \<and> eligible e dir f (paneId pn) \<longrightarrow>
           dlt (score e dir f (paneId bp)) (score e dir f (paneId pn))"
    and post: "\<forall>pn \<in> set post. paneId pn \<noteq> f \<and> eligible e dir f (paneId pn) \<longrightarrow>
           \<not> dlt (score e dir f (paneId pn)) (score e dir f (paneId bp))"
  shows "scan dir f (panePosition e cp) (map (panePosition e) (pre @ bp # post)) (None, PosInf) =
           (Some (paneId bp), score e dir f (paneId bp))"
proof -
  let ?v = "score e dir f (paneId bp)"
  let ?c = "panePosition e cp"
  from scan_pre[OF cp pre fin, of "bp # post" None]
  obtain b' s' where s': "dlt ?v s'"
    and eq: "scan dir f ?c (map (panePosition e) (pre @ bp # post)) (None, PosInf) =
             scan dir f ?c (map (panePosition e) (bp # post)) (b', s')" by blast
  have "scan dir f ?c (map (panePosition e) (bp # post)) (b', s') =
        scan dir f ?c (map (panePosition e) post) (Some (paneId bp), ?v)"
    using assms(2,3) s' by (simp only: list.map scan_step[OF cp]) simp
  also have "\<dots> = (Some (paneId bp), ?v)"
    using post by (intro scan_keep[OF cp]) auto
  finally show ?thesis using eq by simp
qed

lemma finite_min:
  fixes q :: "nat \<Rightarrow> rat"
  assumes "c \<in> set ids" and "P c"
  shows "\<exists>m \<in> set ids. P m \<and> (\<forall>c' \<in> set ids. P c' \<longrightarrow> q m \<le> q c')"
proof -
  let ?S = "{x \<in> set ids. P x}"
  have fin: "finite (q ` ?S)" by simp
  have ne: "q ` ?S \<noteq> {}" using assms by auto
  from Min_in[OF fin ne] obtain m where m: "m \<in> ?S" "q m = Min (q ` ?S)" by auto
  have "q m \<le> q c'" if "c' \<in> set ids" "P c'" for c'
    using Min_le[OF fin, of "q c'"] that m(2) by auto
  with m(1) show ?thesis by auto
qed

lemma wf_tab_ids:
  assumes wf: "panes_wf r" and cur: "map_of (panes r) f = Some cp"
  shows "paneId cp = f" "f \<noteq> 0" "cp \<in> set (getPanesForTab (tabId cp) r)"
proof -
  have mem: "(f, cp) \<in> set (panes r)" using cur by (rule map_of_SomeD)
  then show "cp \<in> set (getPanesForTab (tabId cp) r)" by (force simp: getPanesForTab_def)
  show "paneId cp = f" "f \<noteq> 0" using wf mem by (auto simp: panes_wf_def)
qed

text \<open>
  C4. Let pane \<open>f\<close> have the focus, let \<open>ids\<close> be the panes of its tab in the order of
  \<^verbatim>\<open>panes\<close>, and let the bounding rectangles of these panes be finite. The deltas of a
  candidate are taken from the centre of \<open>f\<close> to the centre of the candidate, where a
  centre is \<open>(left + width / 2, top + height / 2)\<close>; a pane other than \<open>f\<close> is eligible
  when its delta along the requested direction is above 10, and its score is the
  absolute delta along the direction plus half the absolute delta across it, all in
  the arithmetic of JavaScript numbers. \<^verbatim>\<open>focusDirection\<close> moves the focus to \<open>nearest\<close>,
  the first pane of \<open>ids\<close> among the eligible ones of least score, and changes nothing
  else; it changes nothing at all when there is no such pane, which is the case exactly
  when no pane is eligible. The pane chosen is eligible, its score is at most that of
  every eligible pane, and smaller than that of every eligible pane before it.
\<close>

theorem focusDirection_nearest:
  assumes wf: "panes_wf r" and foc: "focusedPaneId r = Some f"
    and cur: "map_of (panes r) f = Some cp"
    and ids: "ids = map paneId (getPanesForTab (tabId cp) r)"
    and geo: "\<forall>i \<in> set ids. finite_rect (getBoundingClientRect e i)"
  shows "focusDirection e dir r =
           (case nearest e dir f ids of None \<Rightarrow> r | Some b \<Rightarrow> r\<lparr>focusedPaneId := Some b\<rparr>) \<and>
         (nearest e dir f ids = None \<longleftrightarrow> (\<forall>c \<in> set ids. c = f \<or> \<not> eligible e dir f c)) \<and>
         (\<forall>b. nearest e dir f ids = Some b \<longrightarrow>
            b \<in> set ids \<and> b \<noteq> f \<and> eligible e dir f b \<and>
            (\<forall>c \<in> set ids. c \<noteq> f \<and> eligible e dir f c \<longrightarrow>
               dle (score e dir f b) (score e dir f c)) \<and>
            (\<forall>c \<in> set (takeWhile (\<lambda>x. x \<noteq> b) ids). c \<noteq> f \<and> eligible e dir f c \<longrightarrow>
               dlt (score e dir f b) (score e dir f c)))"
proof -
  let ?L = "getPanesForTab (tabId cp) r"
  let ?cand = "\<lambda>c. c \<noteq> f \<and> eligible e dir f c"
  let ?P = "\<lambda>c. c \<noteq> f \<and> eligible e dir f c \<and>
              (\<forall>c' \<in> set ids. c' \<noteq> f \<and> eligible e dir f c' \<longrightarrow>
                 dle (score e dir f c) (score e dir f c'))"
  note w = wf_tab_ids[OF wf cur]
  have fin_f: "f \<in> set ids" using w(1,3) by (force simp: ids)
  have gf: "finite_rect (getBoundingClientRect e f)" using geo fin_f by simp
  have ex_q: "\<exists>q. \<forall>c \<in> set ids. score e dir f c = Finite (q c)"
  proof -
    have "\<forall>c \<in> set ids. \<exists>x. score e dir f c = Finite x"
      using score_finite[OF gf] geo by simp
    then show ?thesis by (rule bchoice)
  qed
  then obtain q where q: "\<And>c. c \<in> set ids \<Longrightarrow> score e dir f c = Finite (q c)" by blast
  note fc = wf_find_current[OF wf cur, of e]
  have nearest_find: "nearest e dir f ids = find ?P ids" by (simp add: nearest_def)
  have none_iff: "nearest e dir f ids = None \<longleftrightarrow> (\<forall>c \<in> set ids. c = f \<or> \<not> eligible e dir f c)"
  proof
    assume n: "nearest e dir f ids = None"
    show "\<forall>c \<in> set ids. c = f \<or> \<not> eligible e dir f c"
    proof (rule ccontr)
      assume "\<not> (\<forall>c \<in> set ids. c = f \<or> \<not> eligible e dir f c)"
      then obtain c where c: "c \<in> set ids" "?cand c" by auto
      from finite_min[of c ids ?cand q, OF c]
      obtain m where m: "m \<in> set ids" "?cand m" "\<forall>c' \<in> set ids. ?cand c' \<longrightarrow> q m \<le> q c'"
        by blast
      have "?P m" using m q by auto
      with m(1) n show False unfolding nearest_find find_None_iff by blast
    qed
  next
    assume "\<forall>c \<in> set ids. c = f \<or> \<not> eligible e dir f c"
    then show "nearest e dir f ids = None"
      unfolding nearest_find find_None_iff by blast
  qed
  have some: "focusDirection e dir r = r\<lparr>focusedPaneId := Some b\<rparr> \<and>
      b \<in> set ids \<and> b \<noteq> f \<and> eligible e dir f b \<and>
      (\<forall>c \<in> set ids. c \<noteq> f \<and> eligible e dir f c \<longrightarrow> dle (score e dir f b) (score e dir f c)) \<and>
      (\<forall>c \<in> set (takeWhile (\<lambda>x. x \<noteq> b) ids). c \<noteq> f \<and> eligible e dir f c \<longrightarrow>
         dlt (score e dir f b) (score e dir f c))"
    if nb: "nearest e dir f ids = Some b" for b
  proof -
    from nb obtain i where i: "i < length ids" "?P (ids ! i)" "b = ids ! i"
      "\<forall>j < i. \<not> ?P (ids ! j)"
      unfolding nearest_find find_Some_iff by blast
    have iL: "i < length ?L" using i(1) by (simp add: ids)
    define bp where "bp = ?L ! i"
    define pre where "pre = take i ?L"
    define post where "post = drop (Suc i) ?L"
    have L: "?L = pre @ bp # post"
      unfolding pre_def post_def bp_def using iL by (rule id_take_nth_drop)
    have bpb: "paneId bp = b" using iL i(3) by (simp add: bp_def ids)
    have b_in: "b \<in> set ids" using i(1,3) by simp
    have bP: "?P b" using i(2,3) by simp
    have pre_in: "paneId pn \<in> set ids" "\<not> ?P (paneId pn)" if "pn \<in> set pre" for pn
    proof -
      from that obtain j where j: "j < length pre" "pn = pre ! j"
        by (auto simp: in_set_conv_nth)
      then have ji: "j < i" by (simp add: pre_def)
      have "pn = ?L ! j" using j ji by (simp add: pre_def)
      then have "paneId pn = ids ! j" using ji iL by (simp add: ids)
      with i(4) ji show "\<not> ?P (paneId pn)" by simp
      show "paneId pn \<in> set ids" using that L by (auto simp: ids)
    qed
    have pre_lt: "dlt (score e dir f b) (score e dir f (paneId pn))"
      if "pn \<in> set pre" "?cand (paneId pn)" for pn
    proof -
      from pre_in[OF that(1)] that(2)
      obtain c' where c': "c' \<in> set ids" "?cand c'"
        "\<not> dle (score e dir f (paneId pn)) (score e dir f c')" by blast
      from bP c'(1,2) have "dle (score e dir f b) (score e dir f c')" by blast
      with c'(3) show ?thesis
        using q[OF b_in] q[OF c'(1)] q[OF pre_in(1)[OF that(1)]] by simp
    qed
    have post_ge: "\<not> dlt (score e dir f (paneId pn)) (score e dir f b)"
      if "pn \<in> set post" "?cand (paneId pn)" for pn
    proof -
      have "paneId pn \<in> set ids" using that(1) L by (auto simp: ids)
      with bP that(2) have "dle (score e dir f b) (score e dir f (paneId pn))" by blast
      then show ?thesis by (rule dle_not_dlt)
    qed
    have finb: "dlt (score e dir f (paneId bp)) PosInf" using q[OF b_in] by (simp add: bpb)
    have sc: "scan dir f (panePosition e cp) (map (panePosition e) ?L) (None, PosInf) =
        (Some b, score e dir f b)"
      unfolding L
      using scan_first_min[OF w(1), of bp e dir pre post] bP finb pre_lt post_ge
      by (simp add: bpb)
    have "bp \<in> set ?L" using L by simp
    from wf_tab_pane[OF wf this]
    have b_ok: "map_of (panes r) b = Some bp" "b \<noteq> 0" by (simp_all add: bpb)
    have "b \<noteq> f" using bP by simp
    have "cp \<in> set pre \<union> set post" using w(1,3) L bpb \<open>b \<noteq> f\<close> by auto
    then have len: "\<not> length ?L \<le> 1" unfolding L by (cases pre; cases post) auto
    have fd: "focusDirection e dir r = r\<lparr>focusedPaneId := Some b\<rparr>"
      using foc w(2) cur fc len sc b_ok
      by (simp add: focusDirection_def Let_def focusPane_def)
    have tw: "takeWhile (\<lambda>x. x \<noteq> b) ids = map paneId (takeWhile (\<lambda>pn. paneId pn \<noteq> b) ?L)"
      by (simp add: ids takeWhile_map comp_def)
    have before: "dlt (score e dir f b) (score e dir f c)"
      if "c \<in> set (takeWhile (\<lambda>x. x \<noteq> b) ids)" "?cand c" for c
    proof -
      have "set (takeWhile (\<lambda>pn. paneId pn \<noteq> b) ?L) \<subseteq> set pre"
      proof -
        have "takeWhile (\<lambda>pn. paneId pn \<noteq> b) (pre @ bp # post) =
              takeWhile (\<lambda>pn. paneId pn \<noteq> b) pre"
          by (induction pre) (simp_all add: bpb)
        then show ?thesis using set_takeWhileD unfolding L by fastforce
      qed
      with that(1) obtain pn where "pn \<in> set pre" "c = paneId pn" unfolding tw by auto
      with pre_lt that(2) show ?thesis by blast
    qed
    from fd b_in bP before show ?thesis by blast
  qed
  have main: "focusDirection e dir r =
      (case nearest e dir f ids of None \<Rightarrow> r | Some b \<Rightarrow> r\<lparr>focusedPaneId := Some b\<rparr>)"
  proof (cases "nearest e dir f ids")
    case None
    with none_iff have "\<forall>c \<in> set ids. c = f \<or> \<not> eligible e dir f c" by simp
    then have "scan dir f (panePosition e cp) (map (panePosition e) ?L) (None, PosInf) =
        (None, PosInf)"
      by (intro scan_keep[OF w(1)]) (auto simp: ids)
    then have "focusDirection e dir r = r"
      using foc w(2) cur fc by (simp add: focusDirection_def Let_def)
    with None show ?thesis by simp
  next
    case (Some b)
    with some[OF Some] show ?thesis by simp
  qed
  from main none_iff some show ?thesis by blast
qed

lemmas geo_defs = eligible_def score_def primary_def cross_def delta_def
  centre_def dsub_def square_def env_geo_def env_geo2_def env_tie_def env_round_def rnd_eval

lemma env_geo_eval:
  "map (\<lambda>i. centre (getBoundingClientRect env_geo i)) [1, 2, 3] =
     [(Finite 0, Finite 50), (Finite 100, Finite 50), (Finite (- 100), Finite 50)]"
  "map (eligible env_geo Right 1) [2, 3] = [True, False]"
  "map (eligible env_geo Left 1) [2, 3] = [False, True]"
  "map (eligible env_geo Up 1) [2, 3] = [False, False]"
  "map (score env_geo Right 1) [2, 3] = [Finite 100, Finite 100]"
  "map (score env_geo Left 1) [2, 3] = [Finite 100, Finite 100]"
  by (simp_all add: geo_defs)

lemma env_geo2_eval:
  "map (\<lambda>i. centre (getBoundingClientRect env_geo2 i)) [1, 2, 3] =
     [(Finite 50, Finite 50), (Finite 150, Finite 350), (Finite 270, Finite 50)]"
  "map (eligible env_geo2 Right 1) [2, 3] = [True, True]"
  "map (score env_geo2 Right 1) [2, 3] = [Finite 250, Finite 220]"
  "map (eligible env_geo2 Down 1) [2, 3] = [True, False]"
  "map (score env_geo2 Down 1) [2, 3] = [Finite 350, Finite 110]"
  by (simp_all add: geo_defs)

lemma env_tie_eval:
  "map (eligible env_tie Right 1) [2, 3] = [True, True]"
  "map (score env_tie Right 1) [2, 3] = [Finite 100, Finite 100]"
  by (simp_all add: geo_defs)

lemma env_round_eval:
  "map (\<lambda>i. fst (centre (getBoundingClientRect env_round i))) [1, 2] =
     [Finite (3539547832136499 / 70368744177664), Finite (4243235273913139 / 70368744177664)]"
  "delta env_round 1 2 = (Finite 10, Finite 0)"
  "map (eligible env_round Right 1) [2, 3] = [False, False]"
  by (simp_all add: geo_defs)

lemma geo_nearest:
  "nearest env_geo Right 1 [1, 2, 3] = Some 2"
  "nearest env_geo Left 1 [1, 2, 3] = Some 3"
  "nearest env_geo Up 1 [1, 2, 3] = None"
  "nearest env_geo2 Right 1 [1, 2, 3] = Some 3"
  "nearest env_geo2 Down 1 [1, 2, 3] = Some 2"
  "nearest env_tie Right 1 [1, 2, 3] = Some 2"
  "nearest env_round Right 1 [1, 2, 3] = None"
  using env_geo_eval(2-6) env_geo2_eval(2-5) env_tie_eval env_round_eval(3)
  by (simp_all add: nearest_def)

lemma geo_finite:
  "\<forall>i \<in> set [1, 2, 3]. finite_rect (getBoundingClientRect env_geo i)"
  "\<forall>i \<in> set [1, 2, 3]. finite_rect (getBoundingClientRect env_geo2 i)"
  "\<forall>i \<in> set [1, 2, 3]. finite_rect (getBoundingClientRect env_tie i)"
  "\<forall>i \<in> set [1, 2, 3]. finite_rect (getBoundingClientRect env_round i)"
  by (simp_all add: finite_rect_def square_def env_geo_def env_geo2_def env_tie_def
        env_round_def)

theorem focusDirection_nearest_witness:
  "panes_wf demo_focus1 \<and> focusedPaneId demo_focus1 = Some 1 \<and>
   map paneId (getPanesForTab 1 demo_focus1) = [1, 2, 3] \<and>
   map (\<lambda>i. centre (getBoundingClientRect env_geo i)) [1, 2, 3] =
     [(Finite 0, Finite 50), (Finite 100, Finite 50), (Finite (- 100), Finite 50)] \<and>
   focusDirection env_geo Right demo_focus1 = demo_focus1\<lparr>focusedPaneId := Some 2\<rparr> \<and>
   focusDirection env_geo Left demo_focus1 = demo_focus1\<lparr>focusedPaneId := Some 3\<rparr> \<and>
   focusDirection env_geo Up demo_focus1 = demo_focus1 \<and>
   map (\<lambda>i. centre (getBoundingClientRect env_geo2 i)) [1, 2, 3] =
     [(Finite 50, Finite 50), (Finite 150, Finite 350), (Finite 270, Finite 50)] \<and>
   map (score env_geo2 Right 1) [2, 3] = [Finite 250, Finite 220] \<and>
   focusDirection env_geo2 Right demo_focus1 = demo_focus1\<lparr>focusedPaneId := Some 3\<rparr> \<and>
   focusDirection env_geo2 Down demo_focus1 = demo_focus1\<lparr>focusedPaneId := Some 2\<rparr> \<and>
   map (score env_tie Right 1) [2, 3] = [Finite 100, Finite 100] \<and>
   focusDirection env_tie Right demo_focus1 = demo_focus1\<lparr>focusedPaneId := Some 2\<rparr> \<and>
   delta env_round 1 2 = (Finite 10, Finite 0) \<and>
   focusDirection env_round Right demo_focus1 = demo_focus1"
proof -
  let ?p1 = "\<lparr>paneId = 1, tabId = 1, terminalId = 1, terminal = []\<rparr>"
  have h1: "panes_wf demo_focus1"
    by (simp add: panes_wf_def demo_focus1_eval demo_w3_eval(2))
  have h2: "focusedPaneId demo_focus1 = Some 1" by (simp add: demo_focus1_eval)
  have h3: "map_of (panes demo_focus1) 1 = Some ?p1"
    by (simp add: demo_focus1_eval demo_w3_eval(2))
  have h4: "[1, 2, 3] = map paneId (getPanesForTab (tabId ?p1) demo_focus1)"
    by (simp add: demo_focus1_eval demo_w3_eval(2) getPanesForTab_def)
  have h4': "map paneId (getPanesForTab 1 demo_focus1) = [1, 2, 3]"
    using h4 by simp
  note t = focusDirection_nearest[OF h1 h2 h3 h4]
  have "focusDirection env_geo Right demo_focus1 = demo_focus1\<lparr>focusedPaneId := Some 2\<rparr>"
    using t[OF geo_finite(1), of Right] unfolding geo_nearest by simp
  moreover have "focusDirection env_geo Left demo_focus1 = demo_focus1\<lparr>focusedPaneId := Some 3\<rparr>"
    using t[OF geo_finite(1), of Left] unfolding geo_nearest by simp
  moreover have "focusDirection env_geo Up demo_focus1 = demo_focus1"
    using t[OF geo_finite(1), of Up] unfolding geo_nearest by simp
  moreover have "focusDirection env_geo2 Right demo_focus1 = demo_focus1\<lparr>focusedPaneId := Some 3\<rparr>"
    using t[OF geo_finite(2), of Right] unfolding geo_nearest by simp
  moreover have "focusDirection env_geo2 Down demo_focus1 = demo_focus1\<lparr>focusedPaneId := Some 2\<rparr>"
    using t[OF geo_finite(2), of Down] unfolding geo_nearest by simp
  moreover have "focusDirection env_tie Right demo_focus1 = demo_focus1\<lparr>focusedPaneId := Some 2\<rparr>"
    using t[OF geo_finite(3), of Right] unfolding geo_nearest by simp
  moreover have "focusDirection env_round Right demo_focus1 = demo_focus1"
    using t[OF geo_finite(4), of Right] unfolding geo_nearest by simp
  ultimately show ?thesis
    using h1 h2 h4' env_geo_eval(1) env_geo2_eval(1,3) env_tie_eval(2) env_round_eval(2)
    by blast
qed





section \<open>Switching tabs\<close>

lemma foldl_sendResize:
  "foldl (\<lambda>r' pn. sendResize e (paneId pn) (terminalId pn) r') r ps =
     r\<lparr>outbox := outbox r @
        map (\<lambda>pn. TerminalResize (terminalId pn) (fst (fit e (paneId pn)))
                    (snd (fit e (paneId pn)))) ps\<rparr>"
  by (induction ps arbitrary: r) (simp_all add: sendResize_def send_def)

text \<open>
  C6 as stated fails. In \<open>demo_w2\<close> tab 1 has the panes 1 and 2 and pane 2 has the focus:
  \<^verbatim>\<open>switchTab(1)\<close> moves the focus to pane 1, so more than the active-tab pointer changes.
\<close>

theorem switchTab_moves_focus:
  "1 \<in> set (tabs (rend demo_w2)) \<and>
   focusedPaneId (rend demo_w2) = Some 2 \<and>
   focusedPaneId (switchTab 1 (rend demo_w2)) = Some 1 \<and>
   switchTab 1 (rend demo_w2) \<noteq> (rend demo_w2)\<lparr>activeTabId := Some 1\<rparr>"
  by (simp add: demo_w2_eval(2) switchTab_def Let_def getPanesForTab_def focusPane_def
        refitAllPanesInTab_def)

text \<open>
  C6, amended. For an open tab \<open>t\<close>, \<^verbatim>\<open>switchTab(t)\<close> sets the active-tab pointer to \<open>t\<close>, sets
  the one focused-pane pointer of the window to the first pane of \<open>t\<close> in the order of
  \<^verbatim>\<open>panes\<close> (and leaves it when \<open>t\<close> has no pane), and sets a timer of 50 ms that refits the
  panes of \<open>t\<close>; \<^verbatim>\<open>panes\<close> with every pane's session, the tree of every tab and \<^verbatim>\<open>tabs\<close>
  stay as they are and no message is sent, so no session is destroyed or altered by the
  call. When the timer fires, it sends \<^verbatim>\<open>terminal-resize\<close> for the sessions of the panes
  of \<open>t\<close> and for no other session.
\<close>

theorem switchTab_moves_pointers_only:
  assumes wf: "panes_wf r" and t: "t \<in> set (tabs r)"
  shows "switchTab t r =
           r\<lparr>activeTabId := Some t,
             focusedPaneId := (case getPanesForTab t r of
                                 [] \<Rightarrow> focusedPaneId r | p # ps \<Rightarrow> Some (paneId p)),
             timers := timers r @ [(50, RefitTab t)]\<rparr> \<and>
         panes (switchTab t r) = panes r \<and>
         paneContainer (switchTab t r) = paneContainer r \<and>
         tabs (switchTab t r) = tabs r \<and>
         outbox (switchTab t r) = outbox r \<and>
         (\<forall>e r1. fire e (RefitTab t) r1 =
            (None, r1\<lparr>outbox := outbox r1 @
               map (\<lambda>pn. TerminalResize (terminalId pn) (fst (fit e (paneId pn)))
                           (snd (fit e (paneId pn)))) (getPanesForTab t r1)\<rparr>))"
proof -
  have a: "switchTab t r =
           r\<lparr>activeTabId := Some t,
             focusedPaneId := (case getPanesForTab t r of
                                 [] \<Rightarrow> focusedPaneId r | p # ps \<Rightarrow> Some (paneId p)),
             timers := timers r @ [(50, RefitTab t)]\<rparr>"
  proof (cases "getPanesForTab t r")
    case Nil
    then show ?thesis using t
      by (simp add: switchTab_def Let_def refitAllPanesInTab_def getPanesForTab_def)
  next
    case (Cons p ps)
    then have "p \<in> set (getPanesForTab t r)" by simp
    from wf_tab_pane[OF wf this] have "map_of (panes r) (paneId p) = Some p" by simp
    then show ?thesis using t Cons
      by (simp add: switchTab_def Let_def refitAllPanesInTab_def getPanesForTab_def
            focusPane_def)
  qed
  show ?thesis
    by (rule conjI[OF a]) (simp add: switchTab_frame foldl_sendResize)
qed

theorem switchTab_moves_pointers_only_witness:
  "panes_wf (rend demo_t3) \<and> 1 \<in> set (tabs (rend demo_t3)) \<and>
   activeTabId (rend demo_t3) = Some 3 \<and> focusedPaneId (rend demo_t3) = Some 3 \<and>
   activeTabId (switchTab 1 (rend demo_t3)) = Some 1 \<and>
   focusedPaneId (switchTab 1 (rend demo_t3)) = Some 1 \<and>
   panes (switchTab 1 (rend demo_t3)) = panes (rend demo_t3) \<and>
   outbox (switchTab 1 (rend demo_t3)) = [] \<and>
   outbox (snd (fire env0 (RefitTab 1) (switchTab 1 (rend demo_t3)))) = [TerminalResize 1 80 24]"
proof -
  have h1: "panes_wf (rend demo_t3)" by (simp add: panes_wf_def demo_t3_eval)
  have h2: "1 \<in> set (tabs (rend demo_t3))" by (simp add: demo_t3_eval)
  have ps: "getPanesForTab 1 (rend demo_t3) =
      [\<lparr>paneId = 1, tabId = 1, terminalId = 1, terminal = []\<rparr>]"
    by (simp add: getPanesForTab_def demo_t3_eval)
  note th = switchTab_moves_pointers_only[OF h1 h2]
  from th have sw: "switchTab 1 (rend demo_t3) =
      (rend demo_t3)\<lparr>activeTabId := Some 1, focusedPaneId := Some 1,
        timers := timers (rend demo_t3) @ [(50, RefitTab 1)]\<rparr>"
    unfolding ps by simp
  from th have fr: "fire env0 (RefitTab 1) (switchTab 1 (rend demo_t3)) =
      (None, (switchTab 1 (rend demo_t3))\<lparr>outbox := outbox (switchTab 1 (rend demo_t3)) @
         map (\<lambda>pn. TerminalResize (terminalId pn) (fst (fit env0 (paneId pn)))
                     (snd (fit env0 (paneId pn))))
           (getPanesForTab 1 (switchTab 1 (rend demo_t3)))\<rparr>)"
    by blast
  have ps': "getPanesForTab 1 (switchTab 1 (rend demo_t3)) =
      [\<lparr>paneId = 1, tabId = 1, terminalId = 1, terminal = []\<rparr>]"
    unfolding sw by (simp add: getPanesForTab_def demo_t3_eval)
  have ob: "outbox (switchTab 1 (rend demo_t3)) = []"
    unfolding sw by (simp add: demo_t3_eval)
  have "outbox (snd (fire env0 (RefitTab 1) (switchTab 1 (rend demo_t3)))) =
      [TerminalResize 1 80 24]"
    unfolding fr ps' ob by (simp add: env0_def)
  moreover have "activeTabId (rend demo_t3) = Some 3" "focusedPaneId (rend demo_t3) = Some 3"
    by (simp_all add: demo_t3_eval)
  moreover have "activeTabId (switchTab 1 (rend demo_t3)) = Some 1"
    "focusedPaneId (switchTab 1 (rend demo_t3)) = Some 1"
    "panes (switchTab 1 (rend demo_t3)) = panes (rend demo_t3)"
    unfolding sw by simp_all
  ultimately show ?thesis using h1 h2 ob by simp
qed

section \<open>The invariant of the reachable states\<close>

lemma sub_panes_refl: "sub_panes r r"
proof -
  have "panes r = filter (\<lambda>x. True) (panes r)" by simp
  then have "\<exists>P. panes r = filter P (panes r)" by blast
  then show ?thesis unfolding sub_panes_def by auto
qed

lemma sub_panes_trans:
  assumes "sub_panes r2 r1" and "sub_panes r1 r"
  shows "sub_panes r2 r"
proof -
  from assms obtain P Q where "panes r2 = filter P (panes r1)" "panes r1 = filter Q (panes r)"
    by (auto simp: sub_panes_def)
  then have "panes r2 = filter (\<lambda>x. Q x \<and> P x) (panes r)" by simp
  then have "\<exists>P. panes r2 = filter P (panes r)" by blast
  with assms show ?thesis by (auto simp: sub_panes_def)
qed

lemma sub_panes_frame:
  "panes r' = panes r \<Longrightarrow> paneIdCounter r' = paneIdCounter r \<Longrightarrow>
   paneContainer r' = paneContainer r \<Longrightarrow> sub_panes r' r"
  using sub_panes_refl[of r] by (simp add: sub_panes_def)

lemma rinv_sub:
  assumes "rinv c r" and "sub_panes r' r"
  shows "rinv c r'"
proof -
  from assms(2) obtain P where P: "panes r' = filter P (panes r)"
    and cnt: "paneIdCounter r' = paneIdCounter r"
    and dm: "domIds (paneContainer r') \<subseteq> domIds (paneContainer r)"
    by (auto simp: sub_panes_def)
  have "panes_wf r'"
    using assms(1) unfolding rinv_def panes_wf_def P
    by (auto simp: distinct_map_filter)
  moreover have "\<forall>(i, pn) \<in> set (panes r'). i \<le> paneIdCounter r' \<and> terminalId pn \<le> c"
    using assms(1) unfolding rinv_def P cnt by auto
  moreover have "\<forall>p \<in> domIds (paneContainer r'). p \<le> paneIdCounter r'"
    using assms(1) dm unfolding rinv_def cnt by blast
  ultimately show ?thesis by (simp add: rinv_def)
qed

lemma paneIds_divider: "isDivider x \<Longrightarrow> paneIds x = []"
  by (cases x) auto

lemma concat_filter_dividers:
  "concat (map paneIds (filter (\<lambda>c. \<not> isDivider c) cs)) = concat (map paneIds cs)"
  by (induction cs) (auto simp: paneIds_divider)

lemma paneIds_removeDividers: "paneIds (removeDividers x) = paneIds x"
proof (induction x)
  case (Container k cs)
  then have "map paneIds (map removeDividers cs) = map paneIds cs" by simp
  then show ?case
    by (simp add: concat_filter_dividers del: map_map)
qed auto

lemma paneIds_wrapPane: "paneIds (wrapPane p h x) = paneIds x"
proof (induction x)
  case (Container k cs)
  then have "map paneIds (map (wrapPane p h) cs) = map paneIds cs" by simp
  then show ?case by (simp del: map_map)
qed auto

lemma paneIds_appendChild:
  "set (paneIds (appendChild c (PaneEl n) x)) \<subseteq> insert n (set (paneIds x))"
  by (induction x) auto

lemma paneIds_removeEl: "set (paneIds (removeEl p x)) \<subseteq> set (paneIds x)"
  by (induction x) auto

lemma paneIds_closeEl: "y \<in> set (closeEl p x) \<Longrightarrow> set (paneIds y) \<subseteq> set (paneIds x)"
proof (induction x arbitrary: y)
  case (Container k cs)
  show ?case
  proof (cases "PaneEl p \<in> set cs")
    case True
    let ?cs1 = "remove1 (PaneEl p) cs"
    have sub1: "set ?cs1 \<subseteq> set cs" by (rule set_remove1_subset)
    have "set (paneIds y) \<subseteq> (\<Union>c \<in> set ?cs1. set (paneIds c))"
      using Container.prems True
      by (auto simp: Let_def paneIds_removeDividers split: if_splits)
    with sub1 show ?thesis by fastforce
  next
    case False
    with Container.prems have y: "y = Container k (concat (map (closeEl p) cs))" by simp
    have "set (paneIds y) \<subseteq> (\<Union>c \<in> set cs. set (paneIds c))"
      unfolding y using Container.IH by fastforce
    then show ?thesis by simp
  qed
qed auto

lemma domIds_closeDom: "domIds (closeDom p els) \<subseteq> domIds els"
proof (cases "PaneEl p \<in> set els")
  case True
  then show ?thesis
    using set_remove1_subset[of "PaneEl p" els] by (auto simp: closeDom_def domIds_def)
next
  case False
  then show ?thesis
    using paneIds_closeEl by (fastforce simp: closeDom_def domIds_def)
qed

lemma domIds_removeEl: "domIds (map (removeEl p) els) \<subseteq> domIds els"
  using paneIds_removeEl by (fastforce simp: domIds_def)

lemma domIds_wrapPane: "domIds (map (wrapPane p h) els) = domIds els"
  by (simp add: domIds_def paneIds_wrapPane comp_def)

lemma domIds_appendChild:
  "domIds (map (appendChild c (PaneEl n)) els) \<subseteq> insert n (domIds els)"
  using paneIds_appendChild by (fastforce simp: domIds_def)

lemma domIds_filter: "domIds (filter P els) \<subseteq> domIds els"
  by (auto simp: domIds_def)

lemma sub_panes_closePane: "sub_panes (snd (closePane p r)) r"
proof (cases "map_of (panes r) p")
  case None
  then show ?thesis by (simp add: closePane_def sub_panes_refl)
next
  case (Some pn)
  show ?thesis
  proof (cases "\<exists>c \<in> set (paneContainer r). attached p c")
    case False
    then show ?thesis using Some
      by (auto simp: closePane_def Let_def send_def intro!: sub_panes_frame)
  next
    case True
    obtain res r' where cl: "closePane p r = (res, r')" by (cases "closePane p r")
    note c = closePane_ok[OF Some True cl]
    have "paneIdCounter r' = paneIdCounter r"
      using cl Some True
      by (auto simp: closePane_def Let_def send_def refitAllPanesInTab_def focusPane_def
            split: list.splits option.splits if_splits)
    moreover have "\<exists>P. panes r' = filter P (panes r)"
      unfolding c(3) AList.delete_eq by blast
    moreover have "domIds (paneContainer r') \<subseteq> domIds (paneContainer r)"
      unfolding c(4) by (rule domIds_closeDom)
    ultimately show ?thesis using cl by (simp add: sub_panes_def)
  qed
qed

lemma sub_panes_destroyOne: "sub_panes (destroyOne r pn) r"
proof -
  have "\<exists>P. panes (destroyOne r pn) = filter P (panes r)"
    unfolding destroyOne_def AList.delete_eq by (simp add: send_def) blast
  moreover have "domIds (paneContainer (destroyOne r pn)) \<subseteq> domIds (paneContainer r)"
    using domIds_removeEl by (simp add: destroyOne_def send_def)
  ultimately show ?thesis by (simp add: sub_panes_def destroyOne_def send_def)
qed

lemma sub_panes_foldl_destroyOne: "sub_panes (foldl destroyOne r ps) r"
proof (induction ps arbitrary: r)
  case Nil
  then show ?case by (simp add: sub_panes_refl)
next
  case (Cons a ps)
  from sub_panes_trans[OF Cons[of "destroyOne r a"] sub_panes_destroyOne[of r a]]
  show ?case by simp
qed

lemma sub_panes_switchTab: "sub_panes (switchTab t r) r"
  by (rule sub_panes_frame) (simp_all add: switchTab_frame)

lemma sub_panes_closeTab: "sub_panes (closeTab t r) r"
proof -
  let ?r1 = "destroyAllPanesInTab t r"
  let ?r2 = "?r1\<lparr>paneContainer := filter (\<lambda>c. \<not> isContentOf t c) (paneContainer ?r1),
                  tabs := removeAll t (tabs ?r1)\<rparr>"
  have r1: "sub_panes ?r1 r" by (simp add: destroyAll_fold sub_panes_foldl_destroyOne)
  have "sub_panes ?r2 ?r1"
    using sub_panes_refl[of ?r1] domIds_filter by (auto simp: sub_panes_def)
  from sub_panes_trans[OF this r1] have r2: "sub_panes ?r2 r" .
  have sw: "sub_panes (switchTab t' ?r2) r" for t'
    using sub_panes_trans[OF sub_panes_switchTab r2] .
  have wc: "sub_panes (send WindowClose r) r"
    by (rule sub_panes_frame) (simp_all add: send_def)
  show ?thesis
  proof (cases "t \<in> set (tabs r) \<and> 1 < length (tabs r)")
    case True
    then have "closeTab t r = ?r2 \<or> (\<exists>t'. closeTab t r = switchTab t' ?r2)"
      by (auto simp: closeTab_def Let_def split: list.splits)
    with r2 sw show ?thesis by auto
  next
    case False
    then have "closeTab t r = r \<or> closeTab t r = send WindowClose r"
      by (auto simp: closeTab_def)
    with wc sub_panes_refl[of r] show ?thesis by auto
  qed
qed

lemma sub_panes_focusDirection: "sub_panes (focusDirection e d r) r"
  by (rule sub_panes_frame)
     (auto simp: focusDirection_def focusPane_def Let_def split: option.splits)

lemma sub_panes_focusNextPane: "sub_panes (focusNextPane r) r"
  by (rule sub_panes_frame)
     (auto simp: focusNextPane_def focusPane_def Let_def split: option.splits)

lemma sub_panes_fire: "sub_panes (snd (fire e tm r)) r"
proof (cases tm)
  case (FitPane p k)
  then show ?thesis by (auto simp: sendResize_def send_def intro!: sub_panes_frame)
next
  case (RefitTab t)
  then show ?thesis by (auto simp: foldl_sendResize intro!: sub_panes_frame)
next
  case (ExitClose p t)
  then show ?thesis by (simp add: sub_panes_closePane sub_panes_refl)
qed

lemma writeFirst_proj:
  "map (\<lambda>(i, pn). (i, paneId pn, terminalId pn)) (writeFirst k x al) =
   map (\<lambda>(i, pn). (i, paneId pn, terminalId pn)) al"
  by (induction al) auto

lemma rinv_proj:
  assumes eq: "map (\<lambda>(i, pn). (i, paneId pn, terminalId pn)) (panes r') =
           map (\<lambda>(i, pn). (i, paneId pn, terminalId pn)) (panes r)"
    and cnt: "paneIdCounter r' = paneIdCounter r" and dm: "paneContainer r' = paneContainer r"
    and inv: "rinv c r"
  shows "rinv c r'"
proof -
  let ?g = "\<lambda>(i, pn). (i, paneId pn, terminalId pn)"
  have "map fst (map ?g (panes r')) = map fst (map ?g (panes r))" using eq by simp
  then have fst_eq: "map fst (panes r') = map fst (panes r)"
    by (simp add: comp_def case_prod_unfold)
  have "map (\<lambda>t. snd (snd t)) (map ?g (panes r')) = map (\<lambda>t. snd (snd t)) (map ?g (panes r))"
    using eq by simp
  then have tid_eq: "map (\<lambda>(i, pn). terminalId pn) (panes r') =
      map (\<lambda>(i, pn). terminalId pn) (panes r)"
    by (simp add: comp_def case_prod_unfold)
  have set_eq: "?g ` set (panes r') = ?g ` set (panes r)"
    using arg_cong[OF eq, of set] by simp
  have ex: "\<exists>pn'. (i, pn') \<in> set (panes r) \<and> paneId pn' = paneId pn \<and> terminalId pn' = terminalId pn"
    if "(i, pn) \<in> set (panes r')" for i pn
  proof -
    from that have "?g (i, pn) \<in> ?g ` set (panes r)" unfolding set_eq[symmetric] by (rule imageI)
    then show ?thesis by (auto simp: case_prod_unfold)
  qed
  have a: "distinct (map fst (panes r'))" using inv by (simp add: fst_eq rinv_def panes_wf_def)
  have b: "distinct (map (\<lambda>(i, pn). terminalId pn) (panes r'))"
    using inv by (simp add: tid_eq rinv_def panes_wf_def)
  have c: "\<forall>(i, pn) \<in> set (panes r'). paneId pn = i \<and> i \<noteq> 0"
  proof (clarify)
    fix i pn assume "(i, pn) \<in> set (panes r')"
    from ex[OF this] obtain pn' where "(i, pn') \<in> set (panes r)" "paneId pn' = paneId pn" by blast
    with inv show "paneId pn = i \<and> i \<noteq> 0" by (auto simp: rinv_def panes_wf_def)
  qed
  have d: "\<forall>(i, pn) \<in> set (panes r'). i \<le> paneIdCounter r' \<and> terminalId pn \<le> c"
  proof (clarify)
    fix i pn assume "(i, pn) \<in> set (panes r')"
    from ex[OF this] obtain pn' where "(i, pn') \<in> set (panes r)" "terminalId pn' = terminalId pn"
      by blast
    with inv show "i \<le> paneIdCounter r' \<and> terminalId pn \<le> c" by (auto simp: rinv_def cnt)
  qed
  have e: "\<forall>p \<in> domIds (paneContainer r'). p \<le> paneIdCounter r'"
    using inv by (simp add: rinv_def cnt dm)
  from a b c d e show ?thesis by (simp add: rinv_def panes_wf_def)
qed

lemma rinv_handle_event: "rinv c r \<Longrightarrow> rinv c (handle_event ev r)"
proof (cases ev)
  case (TerminalData k d)
  assume inv: "rinv c r"
  show ?thesis unfolding TerminalData
    by (rule rinv_proj[OF _ _ _ inv]) (simp_all add: terminal_data_def writeFirst_proj)
next
  case (TerminalExit k x)
  assume inv: "rinv c r"
  show ?thesis unfolding TerminalExit
    by (rule rinv_proj[OF _ _ _ inv])
       (simp_all add: terminal_exit_def writeFirst_proj split: option.splits)
qed

lemma main_handle_counter: "terminalIdCounter (main_handle m s) = terminalIdCounter s"
  by (cases m)
     (simp_all add: terminal_destroy_def terminal_input_def terminal_resize_def window_close_def
        split: option.splits)

lemma foldl_handle_counter:
  "terminalIdCounter (foldl (\<lambda>s m. main_handle m s) s ms) = terminalIdCounter s"
  by (induction ms arbitrary: s) (simp_all add: main_handle_counter)

lemma rinv_grow:
  assumes "rinv c r" and "c \<le> c'" and "paneIdCounter r \<le> n"
    and "panes r' = panes r" and "paneContainer r' = paneContainer r" and "paneIdCounter r' = n"
  shows "rinv c' r'"
  using assms unfolding rinv_def panes_wf_def by fastforce

lemma world_inv_flush: "world_inv w \<Longrightarrow> world_inv (flush w)"
  unfolding world_inv_def
  by (auto simp: flush_def foldl_handle_bounded foldl_handle_counter
        intro: rinv_grow[where r = "rend w" and c = "terminalIdCounter (mainp w)"])

lemma world_inv_rend:
  "world_inv w \<Longrightarrow> sub_panes r' (rend w) \<Longrightarrow> world_inv (w\<lparr>rend := r'\<rparr>)"
  by (auto simp: world_inv_def intro: rinv_sub)

lemma update_fresh: "k \<notin> fst ` set al \<Longrightarrow> AList.update k v al = al @ [(k, v)]"
  by (induction al) auto

lemma rinv_add:
  assumes inv: "rinv c r" and p: "paneIdCounter r < p" and k: "c < k"
    and pn: "panes r' = AList.update p \<lparr>paneId = p, tabId = t, terminalId = k, terminal = []\<rparr> (panes r)"
    and cnt: "paneIdCounter r' = p"
    and dm: "domIds (paneContainer r') \<subseteq> insert p (domIds (paneContainer r))"
  shows "rinv k r'"
proof -
  have fresh: "p \<notin> fst ` set (panes r)" using inv p by (fastforce simp: rinv_def)
  have pn': "panes r' = panes r @ [(p, \<lparr>paneId = p, tabId = t, terminalId = k, terminal = []\<rparr>)]"
    unfolding pn using fresh by (rule update_fresh)
  have kfresh: "k \<notin> (\<lambda>(i, pn). terminalId pn) ` set (panes r)"
    using inv k by (fastforce simp: rinv_def)
  have "panes_wf r'"
    using inv fresh kfresh p unfolding rinv_def panes_wf_def pn' by auto
  moreover have "\<forall>(i, pn) \<in> set (panes r'). i \<le> paneIdCounter r' \<and> terminalId pn \<le> k"
    using inv p k unfolding rinv_def pn' cnt by fastforce
  moreover have "\<forall>q \<in> domIds (paneContainer r'). q \<le> paneIdCounter r'"
  proof
    fix q assume "q \<in> domIds (paneContainer r')"
    with dm have "q = p \<or> q \<in> domIds (paneContainer r)" by auto
    with inv p show "q \<le> paneIdCounter r'" unfolding cnt by (fastforce simp: rinv_def)
  qed
  ultimately show ?thesis by (simp add: rinv_def)
qed

lemma terminal_create_inv:
  assumes b: "ids_bounded s" and tc: "terminal_create e dir sender s = (res, s')"
  shows "ids_bounded s'" and "terminalIdCounter s' = terminalIdCounter s + 1"
    and "\<And>k. res = Inr k \<Longrightarrow> k = terminalIdCounter s + 1"
proof -
  have st: "main_step e (Create dir sender) s = (Some res, s')" using tc by simp
  from step_bounded[OF st b] show "ids_bounded s'" .
  show "terminalIdCounter s' = terminalIdCounter s + 1"
    using tc by (auto simp: terminal_create_def createPtyProcess_def Let_def split: option.splits)
  show "\<And>k. res = Inr k \<Longrightarrow> k = terminalIdCounter s + 1"
    using step_returns st by blast
qed

lemma createPane_inv:
  assumes inv: "world_inv w"
  shows "world_inv (snd (createPane e t c dir w))"
proof -
  let ?p = "paneIdCounter (rend w) + 1"
  let ?w0 = "w\<lparr>rend := (rend w)\<lparr>paneIdCounter := ?p\<rparr>\<rparr>"
  let ?w1 = "flush ?w0"
  let ?c = "terminalIdCounter (mainp w)"
  have r0: "rinv ?c (rend w)" and b0: "ids_bounded (mainp w)"
    using inv by (simp_all add: world_inv_def)
  have b1: "ids_bounded (mainp ?w1)" using b0 by (simp add: flush_def foldl_handle_bounded)
  have c1: "terminalIdCounter (mainp ?w1) = ?c" by (simp add: flush_def foldl_handle_counter)
  have r1: "panes (rend ?w1) = panes (rend w)" "paneContainer (rend ?w1) = paneContainer (rend w)"
    "paneIdCounter (rend ?w1) = ?p"
    by (simp_all add: flush_def)
  obtain res m where tc: "terminal_create e dir (senderId (rend ?w1)) (mainp ?w1) = (res, m)"
    by (cases "terminal_create e dir (senderId (rend ?w1)) (mainp ?w1)")
  from terminal_create_inv[OF b1 tc] c1
  have m: "ids_bounded m" "terminalIdCounter m = ?c + 1" "\<And>k. res = Inr k \<Longrightarrow> k = ?c + 1"
    by simp_all
  show ?thesis
  proof (cases res)
    case (Inl err)
    then have eq: "snd (createPane e t c dir w) = ?w1\<lparr>mainp := m\<rparr>"
      using tc by (simp add: createPane_def Let_def)
    have "rinv (?c + 1) (rend ?w1)"
      by (rule rinv_grow[OF r0 _ _ r1]) simp_all
    then show ?thesis unfolding eq using m by (simp add: world_inv_def)
  next
    case (Inr k)
    with m(3) have k: "k = ?c + 1" by simp
    let ?r2 = "(rend ?w1)\<lparr>paneContainer := map (appendChild c (PaneEl ?p)) (paneContainer (rend ?w1)),
                 panes := AList.update ?p
                   \<lparr>paneId = ?p, tabId = t, terminalId = k, terminal = []\<rparr> (panes (rend ?w1)),
                 timers := timers (rend ?w1) @ [(50, FitPane ?p k)]\<rparr>"
    have eq: "snd (createPane e t c dir w) = \<lparr>mainp = m, rend = focusPane ?p ?r2\<rparr>"
      using tc Inr by (simp add: createPane_def Let_def)
    have fr: "panes (focusPane ?p ?r2) = panes ?r2" "paneIdCounter (focusPane ?p ?r2) = ?p"
      "paneContainer (focusPane ?p ?r2) = paneContainer ?r2"
      by (simp_all add: focusPane_def flush_def split: option.splits)
    have "rinv k (focusPane ?p ?r2)"
    proof (rule rinv_add[OF r0, of ?p k _ t])
      show "paneIdCounter (rend w) < ?p" by simp
      show "?c < k" using k by simp
      show "panes (focusPane ?p ?r2) = AList.update ?p
          \<lparr>paneId = ?p, tabId = t, terminalId = k, terminal = []\<rparr> (panes (rend w))"
        unfolding fr by (simp add: flush_def)
      show "paneIdCounter (focusPane ?p ?r2) = ?p" by (rule fr(2))
      show "domIds (paneContainer (focusPane ?p ?r2)) \<subseteq> insert ?p (domIds (paneContainer (rend w)))"
        unfolding fr using domIds_appendChild[of c ?p "paneContainer (rend w)"]
        by (simp add: flush_def)
    qed
    then show ?thesis unfolding eq using m k by (simp add: world_inv_def)
  qed
qed

lemma getPaneCwd_inv: "world_inv w \<Longrightarrow> world_inv (snd (getPaneCwd e p w))"
  by (simp add: getPaneCwd_def Let_def world_inv_flush split: option.splits)

lemma getFocusedPaneCwd_inv: "world_inv w \<Longrightarrow> world_inv (snd (getFocusedPaneCwd e w))"
  by (simp add: getFocusedPaneCwd_def getPaneCwd_inv split: option.splits)

lemma splitPane_inv:
  assumes inv: "world_inv w"
  shows "world_inv (snd (splitPane e p d w))"
proof (cases "map_of (panes (rend w)) p")
  case None
  then show ?thesis using inv by (simp add: splitPane_def)
next
  case (Some pn)
  obtain q w1 where g: "getPaneCwd e p w = (q, w1)" by (cases "getPaneCwd e p w")
  have i1: "world_inv w1" using getPaneCwd_inv[OF inv, of e p] g by simp
  show ?thesis
  proof (cases "\<exists>c \<in> set (paneContainer (rend w1)). attached p c")
    case False
    then show ?thesis using Some g i1 by (simp add: splitPane_def)
  next
    case True
    let ?w2 = "w1\<lparr>rend := (rend w1)\<lparr>paneContainer :=
        map (wrapPane p (d = utf16 ''vertical'')) (paneContainer (rend w1))\<rparr>\<rparr>"
    have "sub_panes (rend ?w2) (rend w1)"
      using sub_panes_refl[of "rend w1"] by (simp add: sub_panes_def domIds_wrapPane)
    then have i2: "world_inv ?w2" using world_inv_rend[OF i1] by simp
    obtain res w3 where cp: "createPane e (tabId pn) (SplitContainerOf p) q ?w2 = (res, w3)"
      by (cases "createPane e (tabId pn) (SplitContainerOf p) q ?w2")
    have i3: "world_inv w3" using createPane_inv[OF i2, of e "tabId pn" "SplitContainerOf p" q] cp
      by simp
    have "sub_panes (refitAllPanesInTab (tabId pn) (rend w3)) (rend w3)"
      by (rule sub_panes_frame) (simp_all add: refitAllPanesInTab_def)
    from world_inv_rend[OF i3 this]
    have i4: "world_inv (w3\<lparr>rend := refitAllPanesInTab (tabId pn) (rend w3)\<rparr>)" .
    have "snd (splitPane e p d w) = w3 \<or>
          snd (splitPane e p d w) = w3\<lparr>rend := refitAllPanesInTab (tabId pn) (rend w3)\<rparr>"
      using Some g True cp by (auto simp: splitPane_def Let_def split: sum.splits)
    with i3 i4 show ?thesis by auto
  qed
qed

lemma createTab_inv:
  assumes inv: "world_inv w"
  shows "world_inv (snd (createTab e w))"
proof -
  obtain q w1 where g: "getFocusedPaneCwd e w = (q, w1)" by (cases "getFocusedPaneCwd e w")
  have i1: "world_inv w1" using getFocusedPaneCwd_inv[OF inv, of e] g by simp
  let ?t = "tabIdCounter (rend w1) + 1"
  let ?r2 = "(rend w1)\<lparr>tabIdCounter := ?t,
      paneContainer := paneContainer (rend w1) @ [Container (TabContent ?t) []],
      tabs := (if ?t \<in> set (tabs (rend w1)) then tabs (rend w1) else tabs (rend w1) @ [?t])\<rparr>"
  have "sub_panes ?r2 (rend w1)"
    using sub_panes_refl[of "rend w1"] by (simp add: sub_panes_def domIds_def)
  from world_inv_rend[OF i1 this] have i2: "world_inv (w1\<lparr>rend := ?r2\<rparr>)" .
  obtain res w2 where cp: "createPane e ?t (ContentElement ?t) q (w1\<lparr>rend := ?r2\<rparr>) = (res, w2)"
    by (cases "createPane e ?t (ContentElement ?t) q (w1\<lparr>rend := ?r2\<rparr>)")
  have i3: "world_inv w2" using createPane_inv[OF i2, of e ?t "ContentElement ?t" q] cp by simp
  from world_inv_rend[OF i3 sub_panes_switchTab]
  have i4: "world_inv (w2\<lparr>rend := switchTab ?t (rend w2)\<rparr>)" .
  have "snd (createTab e w) = w2 \<or> snd (createTab e w) = w2\<lparr>rend := switchTab ?t (rend w2)\<rparr>"
    using g cp by (auto simp: createTab_def Let_def split: sum.splits)
  with i3 i4 show ?thesis by auto
qed

lemma main_step_inv:
  assumes inv: "world_inv w"
  shows "world_inv (w\<lparr>mainp := snd (main_step e op (mainp w))\<rparr>)"
proof -
  obtain r s' where st: "main_step e op (mainp w) = (r, s')" by (cases "main_step e op (mainp w)")
  have "ids_bounded s'" using step_bounded[OF st] inv by (simp add: world_inv_def)
  moreover have "rinv (terminalIdCounter s') (rend w)"
    using inv step_counter_mono[OF st]
    by (auto simp: world_inv_def intro: rinv_grow[where r = "rend w"])
  ultimately show ?thesis using st by (simp add: world_inv_def)
qed

lemma world_inv_init: "world_inv (init_world wc)"
  by (simp add: world_inv_def init_world_def init_main_def init_renderer_def ids_bounded_def
        rinv_def panes_wf_def domIds_def)

lemma act_inv: "world_inv w \<Longrightarrow> world_inv (act e a w)"
proof (cases a)
  case (Deliver ev)
  assume "world_inv w"
  then show ?thesis unfolding Deliver by (simp add: world_inv_def rinv_handle_event)
qed (simp_all add: createTab_inv splitPane_inv world_inv_flush main_step_inv
       world_inv_rend sub_panes_closePane sub_panes_closeTab sub_panes_switchTab
       sub_panes_focusDirection sub_panes_focusNextPane sub_panes_fire)

lemma reachable_inv: "world_inv (acts as (init_world wc))"
proof -
  have "world_inv w \<Longrightarrow> world_inv (acts as w)" for w
    by (induction as arbitrary: w) (auto simp: act_inv)
  then show ?thesis using world_inv_init by blast
qed

text \<open>The hypotheses \<open>panes_wf\<close> and \<open>ids_fresh\<close> of the theorems above hold in every
  reachable state.\<close>

lemma world_inv_wf: "world_inv w \<Longrightarrow> panes_wf (rend w) \<and> ids_fresh w"
  by (fastforce simp: world_inv_def rinv_def ids_fresh_def domIds_def)


section \<open>The layout tree of the reachable states\<close>

text \<open>
  Every state reached from the initial one keeps \<open>dom_inv\<close>. Hence the element of a
  registered pane is always in the document, which is what the properties above assume
  of the pane they split, close or focus.
\<close>

lemma isContentE:
  assumes "isContent x"
  obtains t cs where "x = Container (TabContent t) cs" "\<forall>c \<in> set cs. noContent c"
  using assms by (cases x rule: isContent.cases) auto

lemma appendChild_noContent: "noContent x \<Longrightarrow> appendChild (ContentElement t) y x = x"
proof (induction x)
  case (Container k cs)
  then have "map (appendChild (ContentElement t) y) cs = cs" by (auto intro: map_idI)
  moreover have "k \<noteq> TabContent t" using Container.prems by auto
  ultimately show ?case by simp
qed auto

lemma appendChild_content:
  assumes "isContent x"
  shows "isContent (appendChild (ContentElement t) (PaneEl n) x) \<and>
         contentTab (appendChild (ContentElement t) (PaneEl n) x) = contentTab x \<and>
         paneIds (appendChild (ContentElement t) (PaneEl n) x) =
           paneIds x @ (if contentTab x = t then [n] else [])"
proof -
  from assms obtain t' cs where x: "x = Container (TabContent t') cs" "\<forall>c \<in> set cs. noContent c"
    by (rule isContentE)
  then have "map (appendChild (ContentElement t) (PaneEl n)) cs = cs"
    by (auto intro: map_idI simp: appendChild_noContent)
  then show ?thesis using x by auto
qed

lemma expand_append: "expand p n (xs @ ys) = expand p n xs @ expand p n ys"
  by (simp add: expand_def)

lemma expand_concat: "expand p n (concat xss) = concat (map (expand p n) xss)"
  by (induction xss) (simp_all add: expand_append, simp add: expand_def)

lemma split_container:
  "appendChild (SplitContainerOf p) (PaneEl n) (wrapPane p h (Container k cs)) =
   Container k (map (\<lambda>c. appendChild (SplitContainerOf p) (PaneEl n) (wrapPane p h c)) cs)"
proof -
  have "PaneEl p \<notin> set (map (wrapPane p h) cs)"
    by (metis (no_types, lifting) imageE list.set_map wrapPane_not_pane)
  then show ?thesis by simp
qed

lemma split_paneIds:
  "paneIds (appendChild (SplitContainerOf p) (PaneEl n) (wrapPane p h x)) = expand p n (paneIds x)"
proof (induction x)
  case (PaneEl q)
  then show ?case by (simp add: expand_def)
next
  case (Divider b)
  then show ?case by (simp add: expand_def)
next
  case (Container k cs)
  let ?g = "\<lambda>c. appendChild (SplitContainerOf p) (PaneEl n) (wrapPane p h c)"
  have "map paneIds (map ?g cs) = map (expand p n) (map paneIds cs)"
    using Container.IH by simp
  then have "concat (map paneIds (map ?g cs)) = expand p n (concat (map paneIds cs))"
    by (simp only: expand_concat)
  then show ?case unfolding split_container by simp
qed

lemma split_noContent:
  "noContent x \<Longrightarrow> noContent (appendChild (SplitContainerOf p) (PaneEl n) (wrapPane p h x))"
proof (induction x)
  case (Container k cs)
  then show ?case unfolding split_container by auto
qed auto

lemma split_content:
  assumes "isContent x"
  shows "isContent (appendChild (SplitContainerOf p) (PaneEl n) (wrapPane p h x)) \<and>
         contentTab (appendChild (SplitContainerOf p) (PaneEl n) (wrapPane p h x)) = contentTab x"
proof -
  from assms obtain t cs where x: "x = Container (TabContent t) cs" "\<forall>c \<in> set cs. noContent c"
    by (rule isContentE)
  show ?thesis unfolding x(1) split_container using x(2) split_noContent by auto
qed

lemma wrap_noContent: "noContent x \<Longrightarrow> noContent (wrapPane p h x)"
  by (induction x) auto

lemma wrap_content:
  assumes "isContent x"
  shows "isContent (wrapPane p h x) \<and> contentTab (wrapPane p h x) = contentTab x"
proof -
  from assms obtain t cs where x: "x = Container (TabContent t) cs" "\<forall>c \<in> set cs. noContent c"
    by (rule isContentE)
  show ?thesis unfolding x(1) using x(2) wrap_noContent by auto
qed

lemma removeEl_eq_pane: "removeEl p c = PaneEl q \<longleftrightarrow> c = PaneEl q"
  by (cases c) auto

lemma removeEl_paneIds:
  "x \<noteq> PaneEl p \<Longrightarrow> paneIds (removeEl p x) = filter (\<lambda>q. q \<noteq> p) (paneIds x)"
proof (induction x)
  case (Container k cs)
  have "concat (map paneIds (filter (\<lambda>c. c \<noteq> PaneEl p) (map (removeEl p) cs))) =
        filter (\<lambda>q. q \<noteq> p) (concat (map paneIds cs))"
    using Container.IH
  proof (induction cs)
    case Nil
    then show ?case by simp
  next
    case (Cons c cs)
    have rest: "concat (map paneIds (filter (\<lambda>c. c \<noteq> PaneEl p) (map (removeEl p) cs))) =
        filter (\<lambda>q. q \<noteq> p) (concat (map paneIds cs))"
      using Cons by simp
    show ?case
    proof (cases "c = PaneEl p")
      case True
      then show ?thesis using rest by simp
    next
      case False
      then have "removeEl p c \<noteq> PaneEl p" by (simp add: removeEl_eq_pane)
      moreover have "paneIds (removeEl p c) = filter (\<lambda>q. q \<noteq> p) (paneIds c)"
        using Cons.prems False by simp
      ultimately show ?thesis using rest by simp
    qed
  qed
  then show ?case by simp
qed auto

lemma removeEl_noContent: "noContent x \<Longrightarrow> noContent (removeEl p x)"
  by (induction x) auto

lemma removeEl_content:
  assumes "isContent x"
  shows "isContent (removeEl p x) \<and> contentTab (removeEl p x) = contentTab x"
proof -
  from assms obtain t cs where x: "x = Container (TabContent t) cs" "\<forall>c \<in> set cs. noContent c"
    by (rule isContentE)
  show ?thesis unfolding x(1) using x(2) removeEl_noContent by auto
qed

lemma removeDividers_noContent: "noContent x \<Longrightarrow> noContent (removeDividers x)"
  by (induction x) auto

lemma remove1_ids:
  assumes "PaneEl p \<in> set cs" and "distinct (concat (map paneIds cs))"
  shows "concat (map paneIds (remove1 (PaneEl p) cs)) =
         filter (\<lambda>q. q \<noteq> p) (concat (map paneIds cs))"
  using assms
proof (induction cs)
  case Nil
  then show ?case by simp
next
  case (Cons c cs)
  show ?case
  proof (cases "c = PaneEl p")
    case True
    with Cons.prems(2) have "p \<notin> set (concat (map paneIds cs))" by auto
    then have "filter (\<lambda>q. q \<noteq> p) (concat (map paneIds cs)) = concat (map paneIds cs)"
      unfolding filter_id_conv by blast
    with True show ?thesis by simp
  next
    case False
    with Cons.prems(1) have in_cs: "PaneEl p \<in> set cs" by simp
    then have "p \<in> set (concat (map paneIds cs))" by force
    with Cons.prems(2) have "p \<notin> set (paneIds c)" by auto
    then have "filter (\<lambda>q. q \<noteq> p) (paneIds c) = paneIds c"
      unfolding filter_id_conv by blast
    moreover have "distinct (concat (map paneIds cs))" using Cons.prems(2) by simp
    ultimately show ?thesis using Cons.IH[OF in_cs] False by simp
  qed
qed

lemma distinct_concat_elem:
  "distinct (concat (map f cs)) \<Longrightarrow> c \<in> set cs \<Longrightarrow> distinct (f c)"
  by (induction cs) auto

lemma closeEl_paneIds:
  assumes "x \<noteq> PaneEl p" and "distinct (paneIds x)"
  shows "concat (map paneIds (closeEl p x)) = filter (\<lambda>q. q \<noteq> p) (paneIds x)"
  using assms
proof (induction x)
  case (PaneEl q)
  then show ?case by auto
next
  case (Divider b)
  then show ?case by simp
next
  case (Container k cs)
  have d: "distinct (concat (map paneIds cs))" using Container.prems(2) by simp
  show ?case
  proof (cases "PaneEl p \<in> set cs")
    case True
    let ?cs1 = "remove1 (PaneEl p) cs"
    let ?rem = "filter (\<lambda>c. \<not> isDivider c) ?cs1"
    have ids1: "concat (map paneIds ?cs1) = filter (\<lambda>q. q \<noteq> p) (concat (map paneIds cs))"
      by (rule remove1_ids[OF True d])
    have idsr: "concat (map paneIds (map removeDividers ?rem)) = concat (map paneIds ?cs1)"
      by (simp add: comp_def paneIds_removeDividers concat_filter_dividers)
    have zero: "?rem = [] \<Longrightarrow> concat (map paneIds ?cs1) = []"
      using idsr by simp
    show ?thesis
      using True ids1 idsr zero
      by (auto simp: Let_def simp del: map_map)
  next
    case False
    have "concat (map paneIds (closeEl p c)) = filter (\<lambda>q. q \<noteq> p) (paneIds c)"
      if "c \<in> set cs" for c
    proof -
      from that False have "c \<noteq> PaneEl p" by auto
      moreover have "distinct (paneIds c)" using distinct_concat_elem[OF d that] .
      ultimately show ?thesis using Container.IH that by blast
    qed
    then have "concat (map paneIds (concat (map (closeEl p) cs))) =
        filter (\<lambda>q. q \<noteq> p) (concat (map paneIds cs))"
      by (induction cs) (auto simp: filter_concat)
    with False show ?thesis by simp
  qed
qed

lemma closeEl_noContent: "noContent x \<Longrightarrow> y \<in> set (closeEl p x) \<Longrightarrow> noContent y"
proof (induction x arbitrary: y)
  case (Container k cs)
  show ?case
  proof (cases "PaneEl p \<in> set cs")
    case True
    have sub: "set (remove1 (PaneEl p) cs) \<subseteq> set cs" by (rule set_remove1_subset)
    have nc: "\<forall>c \<in> set (remove1 (PaneEl p) cs). noContent c"
      using Container.prems(1) sub by auto
    from Container.prems True show ?thesis
      using nc removeDividers_noContent
      by (auto simp: Let_def split: if_splits)
  next
    case False
    with Container.prems(2) have y: "y = Container k (concat (map (closeEl p) cs))" by simp
    have "\<forall>c \<in> set (concat (map (closeEl p) cs)). noContent c"
      using Container.IH Container.prems(1) by auto
    then show ?thesis unfolding y using Container.prems(1) by simp
  qed
qed auto

lemma closeEl_content:
  assumes "isContent x"
  shows "\<exists>y. closeEl p x = [y] \<and> isContent y \<and> contentTab y = contentTab x"
proof -
  from assms obtain t cs where x: "x = Container (TabContent t) cs" "\<forall>c \<in> set cs. noContent c"
    by (rule isContentE)
  show ?thesis
  proof (cases "PaneEl p \<in> set cs")
    case True
    have sub: "set (remove1 (PaneEl p) cs) \<subseteq> set cs" by (rule set_remove1_subset)
    then have "\<forall>c \<in> set (remove1 (PaneEl p) cs). noContent c" using x(2) by auto
    then show ?thesis using True by (simp add: x(1))
  next
    case False
    have "\<forall>c \<in> set (concat (map (closeEl p) cs)). noContent c"
      using closeEl_noContent x(2) by auto
    then show ?thesis using False by (simp add: x(1))
  qed
qed

lemma content_not_pane: "isContent x \<Longrightarrow> x \<noteq> PaneEl p"
  by auto

lemma layout_closeDom:
  assumes c: "\<forall>x \<in> set els. isContent x" and d: "distinct (concat (map paneIds els))"
  shows "(\<forall>x \<in> set (closeDom p els). isContent x) \<and>
         layout (closeDom p els) = map (\<lambda>(t, ids). (t, filter (\<lambda>q. q \<noteq> p) ids)) (layout els)"
proof -
  have np: "PaneEl p \<notin> set els" using c by auto
  have "(\<forall>x \<in> set (concat (map (closeEl p) els)). isContent x) \<and>
        layout (concat (map (closeEl p) els)) =
          map (\<lambda>(t, ids). (t, filter (\<lambda>q. q \<noteq> p) ids)) (layout els)"
    using c d
  proof (induction els)
    case Nil
    then show ?case by (simp add: layout_def)
  next
    case (Cons x els)
    from closeEl_content[of x p] Cons.prems(1)
    obtain y where y: "closeEl p x = [y]" "isContent y" "contentTab y = contentTab x" by auto
    have "x \<noteq> PaneEl p" using Cons.prems(1) by auto
    moreover have "distinct (paneIds x)" using Cons.prems(2) by simp
    ultimately have "concat (map paneIds (closeEl p x)) = filter (\<lambda>q. q \<noteq> p) (paneIds x)"
      by (rule closeEl_paneIds)
    then have ids: "paneIds y = filter (\<lambda>q. q \<noteq> p) (paneIds x)" by (simp add: y(1))
    have "distinct (concat (map paneIds els))" using Cons.prems(2) by simp
    with Cons.IH Cons.prems(1) show ?case using y ids by (simp add: layout_def)
  qed
  then show ?thesis using np by (simp add: closeDom_def)
qed

lemma layout_removeEl:
  assumes c: "\<forall>x \<in> set els. isContent x"
  shows "(\<forall>x \<in> set (map (removeEl p) els). isContent x) \<and>
         layout (map (removeEl p) els) = map (\<lambda>(t, ids). (t, filter (\<lambda>q. q \<noteq> p) ids)) (layout els)"
  using c removeEl_content removeEl_paneIds content_not_pane
  by (auto simp: layout_def)

lemma layout_split:
  assumes c: "\<forall>x \<in> set els. isContent x"
  shows "(\<forall>x \<in> set (map (appendChild (SplitContainerOf p) (PaneEl n)) (map (wrapPane p h) els)).
            isContent x) \<and>
         layout (map (appendChild (SplitContainerOf p) (PaneEl n)) (map (wrapPane p h) els)) =
           map (\<lambda>(t, ids). (t, expand p n ids)) (layout els)"
  using c split_content split_paneIds
  by (auto simp: layout_def)

lemma layout_wrap:
  assumes c: "\<forall>x \<in> set els. isContent x"
  shows "(\<forall>x \<in> set (map (wrapPane p h) els). isContent x) \<and>
         layout (map (wrapPane p h) els) = layout els"
  using c wrap_content paneIds_wrapPane
  by (auto simp: layout_def)

lemma layout_appendChild:
  assumes c: "\<forall>x \<in> set els. isContent x"
  shows "(\<forall>x \<in> set (map (appendChild (ContentElement t) (PaneEl n)) els). isContent x) \<and>
         layout (map (appendChild (ContentElement t) (PaneEl n)) els) =
           map (\<lambda>(t', ids). (t', ids @ (if t' = t then [n] else []))) (layout els)"
  using c appendChild_content
  by (auto simp: layout_def)

lemma ainv_add_tab:
  assumes "ainv lay pt tc"
  shows "ainv (lay @ [(tc + 1, [])]) pt (tc + 1)"
  using assms unfolding ainv_def by fastforce

lemma ainv_remove_pane:
  assumes "ainv lay pt tc"
  shows "ainv (map (\<lambda>(t, ids). (t, filter (\<lambda>q. q \<noteq> p) ids)) lay)
           (filter (\<lambda>(i, t). i \<noteq> p) pt) tc"
proof -
  let ?lay = "map (\<lambda>(t, ids). (t, filter (\<lambda>q. q \<noteq> p) ids)) lay"
  have f: "map fst ?lay = map fst lay" by (simp add: comp_def case_prod_unfold)
  have c: "concat (map snd ?lay) = filter (\<lambda>q. q \<noteq> p) (concat (map snd lay))"
    by (simp add: filter_concat comp_def case_prod_unfold)
  have "\<forall>(t, ids) \<in> set ?lay. t \<le> tc" using assms by (auto simp: ainv_def)
  moreover have "distinct (map fst ?lay)" using assms unfolding f by (simp add: ainv_def)
  moreover have "distinct (concat (map snd ?lay))" using assms unfolding c by (simp add: ainv_def)
  moreover have "\<forall>(t, ids) \<in> set ?lay. \<forall>i \<in> set ids. (i, t) \<in> set (filter (\<lambda>(i, t). i \<noteq> p) pt)"
    using assms by (fastforce simp: ainv_def)
  moreover have "\<forall>(i, t) \<in> set (filter (\<lambda>(i, t). i \<noteq> p) pt). \<exists>ids. (t, ids) \<in> set ?lay \<and> i \<in> set ids"
  proof (clarify)
    fix i t assume "(i, t) \<in> set (filter (\<lambda>(i, t). i \<noteq> p) pt)"
    then have it: "(i, t) \<in> set pt" "i \<noteq> p" by auto
    with assms obtain ids where "(t, ids) \<in> set lay" "i \<in> set ids" by (fastforce simp: ainv_def)
    with it(2) have "(t, filter (\<lambda>q. q \<noteq> p) ids) \<in> set ?lay \<and> i \<in> set (filter (\<lambda>q. q \<noteq> p) ids)"
      by force
    then show "\<exists>ids. (t, ids) \<in> set ?lay \<and> i \<in> set ids" by blast
  qed
  ultimately show ?thesis unfolding ainv_def by blast
qed

lemma ainv_remove_tab:
  assumes "ainv lay pt tc" and "\<forall>(i, t') \<in> set pt. t' \<noteq> t"
  shows "ainv (filter (\<lambda>(t', ids). t' \<noteq> t) lay) pt tc"
proof -
  let ?lay = "filter (\<lambda>(t', ids). t' \<noteq> t) lay"
  have "\<forall>(t, ids) \<in> set ?lay. t \<le> tc" using assms by (auto simp: ainv_def)
  moreover have "distinct (map fst ?lay)" using assms by (simp add: ainv_def distinct_map_filter)
  moreover have "distinct (concat (map snd ?lay))"
    using assms(1) unfolding ainv_def
  proof -
    have "distinct (concat (map snd lay)) \<Longrightarrow> distinct (concat (map snd ?lay))"
      by (induction lay) auto
    then show ?thesis using assms(1) by (simp add: ainv_def)
  qed
  moreover have "\<forall>(t, ids) \<in> set ?lay. \<forall>i \<in> set ids. (i, t) \<in> set pt"
    using assms by (fastforce simp: ainv_def)
  moreover have "\<forall>(i, t') \<in> set pt. \<exists>ids. (t', ids) \<in> set ?lay \<and> i \<in> set ids"
    using assms by (fastforce simp: ainv_def)
  ultimately show ?thesis unfolding ainv_def by blast
qed

lemma set_expand: "set (expand p n ids) = set ids \<union> (if p \<in> set ids then {n} else {})"
  by (induction ids) (auto simp: expand_def)

lemma distinct_expand:
  "distinct ids \<Longrightarrow> n \<notin> set ids \<Longrightarrow> distinct (expand p n ids)"
proof (induction ids)
  case Nil
  then show ?case by (simp add: expand_def)
next
  case (Cons a ids)
  have e: "expand p n (a # ids) = (if a = p then [p, n] else [a]) @ expand p n ids"
    by (simp add: expand_def)
  have "distinct (expand p n ids)" using Cons by simp
  moreover have "a \<notin> set (expand p n ids)" "n \<noteq> a"
    using Cons.prems by (auto simp: set_expand)
  moreover have "a = p \<Longrightarrow> n \<notin> set (expand p n ids)"
    using Cons.prems by (auto simp: set_expand)
  ultimately show ?case unfolding e by auto
qed

lemma ainv_split:
  assumes inv: "ainv lay pt tc" and d: "distinct (map fst pt)" and p: "(p, t) \<in> set pt"
    and n: "n \<notin> set (concat (map snd lay))"
  shows "ainv (map (\<lambda>(t', ids). (t', expand p n ids)) lay) (pt @ [(n, t)]) tc"
proof -
  let ?lay = "map (\<lambda>(t', ids). (t', expand p n ids)) lay"
  have f: "map fst ?lay = map fst lay" by (simp add: comp_def case_prod_unfold)
  have c: "concat (map snd ?lay) = expand p n (concat (map snd lay))"
    by (simp add: expand_concat comp_def case_prod_unfold)
  have "\<forall>(t, ids) \<in> set ?lay. t \<le> tc" using inv by (auto simp: ainv_def)
  moreover have "distinct (map fst ?lay)" using inv unfolding f by (simp add: ainv_def)
  moreover have "distinct (concat (map snd ?lay))"
    unfolding c using inv n by (auto simp: ainv_def intro: distinct_expand)
  moreover have "\<forall>(t', ids) \<in> set ?lay. \<forall>i \<in> set ids. (i, t') \<in> set (pt @ [(n, t)])"
  proof (clarify)
    fix t' ids i assume "(t', ids) \<in> set ?lay" "i \<in> set ids"
    then obtain ids0 where i0: "(t', ids0) \<in> set lay" "i \<in> set (expand p n ids0)" by auto
    show "(i, t') \<in> set (pt @ [(n, t)])"
    proof (cases "i \<in> set ids0")
      case True
      with inv i0(1) show ?thesis by (fastforce simp: ainv_def)
    next
      case False
      with i0(2) have "i = n" "p \<in> set ids0" by (auto simp: set_expand split: if_splits)
      with inv i0(1) have "(p, t') \<in> set pt" by (fastforce simp: ainv_def)
      with p d have "t' = t" by (meson eq_key_imp_eq_value)
      with \<open>i = n\<close> show ?thesis by simp
    qed
  qed
  moreover have "\<forall>(i, t') \<in> set (pt @ [(n, t)]). \<exists>ids. (t', ids) \<in> set ?lay \<and> i \<in> set ids"
  proof (clarify)
    fix i t' assume "(i, t') \<in> set (pt @ [(n, t)])"
    then consider "(i, t') \<in> set pt" | "i = n" "t' = t" by auto
    then show "\<exists>ids. (t', ids) \<in> set ?lay \<and> i \<in> set ids"
    proof cases
      case 1
      with inv obtain ids where "(t', ids) \<in> set lay" "i \<in> set ids" by (fastforce simp: ainv_def)
      then have "(t', expand p n ids) \<in> set ?lay \<and> i \<in> set (expand p n ids)"
        by (force simp: set_expand)
      then show ?thesis by blast
    next
      case 2
      from inv p obtain ids where "(t, ids) \<in> set lay" "p \<in> set ids" by (fastforce simp: ainv_def)
      then have "(t, expand p n ids) \<in> set ?lay \<and> n \<in> set (expand p n ids)"
        by (force simp: set_expand)
      with 2 show ?thesis by blast
    qed
  qed
  ultimately show ?thesis unfolding ainv_def by blast
qed

lemma ainv_add_pane:
  assumes inv: "ainv lay pt tc" and t: "t \<in> fst ` set lay"
    and n: "n \<notin> set (concat (map snd lay))"
  shows "ainv (map (\<lambda>(t', ids). (t', ids @ (if t' = t then [n] else []))) lay) (pt @ [(n, t)]) tc"
proof -
  let ?lay = "map (\<lambda>(t', ids). (t', ids @ (if t' = t then [n] else []))) lay"
  have f: "map fst ?lay = map fst lay" by (simp add: comp_def case_prod_unfold)
  have dl: "distinct (map fst lay)" using inv by (simp add: ainv_def)
  have "\<forall>(t, ids) \<in> set ?lay. t \<le> tc" using inv by (auto simp: ainv_def)
  moreover have "distinct (map fst ?lay)" using inv unfolding f by (simp add: ainv_def)
  moreover have "distinct (concat (map snd ?lay))"
  proof -
    from t obtain ids where "(t, ids) \<in> set lay" by auto
    then obtain xs ys where l: "lay = xs @ (t, ids) # ys" by (meson split_list)
    with dl have nt: "t \<notin> fst ` set xs" "t \<notin> fst ` set ys" by auto
    have idm: "map (\<lambda>(t', ids). (t', ids @ (if t' = t then [n] else []))) zs = zs"
      if "t \<notin> fst ` set zs" for zs :: "(nat \<times> nat list) list"
      using that by (induction zs) auto
    have "?lay = xs @ (t, ids @ [n]) # ys"
      unfolding l using idm[OF nt(1)] idm[OF nt(2)] by simp
    moreover have "distinct (concat (map snd (xs @ (t, ids) # ys)))"
      using inv by (simp add: ainv_def l)
    moreover have "n \<notin> set (concat (map snd (xs @ (t, ids) # ys)))" using n by (simp add: l)
    ultimately show ?thesis by auto
  qed
  moreover have "\<forall>(t', ids) \<in> set ?lay. \<forall>i \<in> set ids. (i, t') \<in> set (pt @ [(n, t)])"
    using inv by (fastforce simp: ainv_def split: if_splits)
  moreover have "\<forall>(i, t') \<in> set (pt @ [(n, t)]). \<exists>ids. (t', ids) \<in> set ?lay \<and> i \<in> set ids"
  proof (clarify)
    fix i t' assume "(i, t') \<in> set (pt @ [(n, t)])"
    then consider "(i, t') \<in> set pt" | "i = n" "t' = t" by auto
    then show "\<exists>ids. (t', ids) \<in> set ?lay \<and> i \<in> set ids"
    proof cases
      case 1
      with inv obtain ids where "(t', ids) \<in> set lay" "i \<in> set ids" by (fastforce simp: ainv_def)
      then have "(t', ids @ (if t' = t then [n] else [])) \<in> set ?lay \<and>
          i \<in> set (ids @ (if t' = t then [n] else []))" by force
      then show ?thesis by blast
    next
      case 2
      from t obtain ids where "(t, ids) \<in> set lay" by auto
      then have "(t, ids @ [n]) \<in> set ?lay \<and> n \<in> set (ids @ [n])" by force
      with 2 show ?thesis by blast
    qed
  qed
  ultimately show ?thesis unfolding ainv_def by blast
qed

lemma layout_ids: "concat (map snd (layout els)) = concat (map paneIds els)"
  by (simp add: layout_def comp_def)

lemma layout_fst: "map fst (layout els) = map contentTab els"
  by (simp add: layout_def comp_def)

lemma dom_inv_frame:
  "paneContainer r' = paneContainer r \<Longrightarrow> tabOf r' = tabOf r \<Longrightarrow>
   tabIdCounter r' = tabIdCounter r \<Longrightarrow> dom_inv r \<Longrightarrow> dom_inv r'"
  by (simp add: dom_inv_def)

lemma tabOf_frame: "panes r' = panes r \<Longrightarrow> tabOf r' = tabOf r"
  by (simp add: tabOf_def)

lemma tabOf_delete:
  "panes r' = AList.delete p (panes r) \<Longrightarrow> tabOf r' = filter (\<lambda>(i, t). i \<noteq> p) (tabOf r)"
  by (auto simp: tabOf_def AList.delete_eq filter_map comp_def case_prod_unfold
        intro!: arg_cong2[where f = map] filter_cong)

lemma dom_inv_closePane: "dom_inv r \<Longrightarrow> dom_inv (snd (closePane p r))"
proof (cases "map_of (panes r) p")
  case None
  assume "dom_inv r"
  then show ?thesis using None by (simp add: closePane_def)
next
  case (Some pn)
  assume inv: "dom_inv r"
  show ?thesis
  proof (cases "\<exists>c \<in> set (paneContainer r). attached p c")
    case False
    have "snd (closePane p r) = send (TerminalDestroy (terminalId pn)) r"
      using Some False by (simp add: closePane_def Let_def send_def)
    then show ?thesis using inv by (simp add: send_def dom_inv_def tabOf_def)
  next
    case True
    obtain res r' where cl: "closePane p r = (res, r')" by (cases "closePane p r")
    note c = closePane_ok[OF Some True cl]
    have tc: "tabIdCounter r' = tabIdCounter r"
      using cl Some True
      by (auto simp: closePane_def Let_def send_def refitAllPanesInTab_def focusPane_def
            split: list.splits option.splits if_splits)
    have cont: "\<forall>x \<in> set (paneContainer r). isContent x"
      and a: "ainv (layout (paneContainer r)) (tabOf r) (tabIdCounter r)"
      using inv by (simp_all add: dom_inv_def)
    have d: "distinct (concat (map paneIds (paneContainer r)))"
      using a by (simp add: ainv_def layout_ids)
    note l = layout_closeDom[OF cont d, of p]
    have "ainv (layout (paneContainer r')) (tabOf r') (tabIdCounter r')"
      unfolding c(4) tc tabOf_delete[OF c(3)] using l ainv_remove_pane[OF a, of p] by simp
    then show ?thesis using l cl c(4) by (simp add: dom_inv_def)
  qed
qed

lemma dom_inv_destroyOne: "dom_inv r \<Longrightarrow> dom_inv (destroyOne r pn)"
proof -
  assume inv: "dom_inv r"
  have cont: "\<forall>x \<in> set (paneContainer r). isContent x"
    and a: "ainv (layout (paneContainer r)) (tabOf r) (tabIdCounter r)"
    using inv by (simp_all add: dom_inv_def)
  note l = layout_removeEl[OF cont, of "paneId pn"]
  have p: "panes (destroyOne r pn) = AList.delete (paneId pn) (panes r)"
    "paneContainer (destroyOne r pn) = map (removeEl (paneId pn)) (paneContainer r)"
    "tabIdCounter (destroyOne r pn) = tabIdCounter r"
    by (simp_all add: destroyOne_def send_def)
  show ?thesis
    unfolding dom_inv_def p(2,3) tabOf_delete[OF p(1)]
    using l ainv_remove_pane[OF a, of "paneId pn"] by simp
qed

lemma dom_inv_foldl_destroyOne: "dom_inv r \<Longrightarrow> dom_inv (foldl destroyOne r ps)"
  by (induction ps arbitrary: r) (simp_all add: dom_inv_destroyOne)

lemma isContentOf_contentTab: "isContent x \<Longrightarrow> isContentOf t x \<longleftrightarrow> contentTab x = t"
  by (cases x rule: isContent.cases) auto

lemma layout_filter_content:
  assumes "\<forall>x \<in> set els. isContent x"
  shows "layout (filter (\<lambda>c. \<not> isContentOf t c) els) = filter (\<lambda>(t', ids). t' \<noteq> t) (layout els)"
  using assms by (induction els) (auto simp: layout_def isContentOf_contentTab)

lemma dom_inv_switchTab: "dom_inv r \<Longrightarrow> dom_inv (switchTab t r)"
  by (simp add: dom_inv_def tabOf_def switchTab_frame)

lemma dom_inv_closeTab:
  assumes inv: "dom_inv r" and wf: "panes_wf r"
  shows "dom_inv (closeTab t r)"
proof (cases "t \<in> set (tabs r) \<and> 1 < length (tabs r)")
  case False
  then have "closeTab t r = r \<or> closeTab t r = send WindowClose r"
    by (auto simp: closeTab_def)
  moreover have "dom_inv (send WindowClose r)"
    using inv by (simp add: send_def dom_inv_def tabOf_def)
  ultimately show ?thesis using inv by auto
next
  case True
  let ?r1 = "destroyAllPanesInTab t r"
  let ?r2 = "?r1\<lparr>paneContainer := filter (\<lambda>c. \<not> isContentOf t c) (paneContainer ?r1),
                  tabs := removeAll t (tabs ?r1)\<rparr>"
  have i1: "dom_inv ?r1" using inv by (simp add: destroyAll_fold dom_inv_foldl_destroyOne)
  then have cont: "\<forall>x \<in> set (paneContainer ?r1). isContent x"
    and a: "ainv (layout (paneContainer ?r1)) (tabOf ?r1) (tabIdCounter ?r1)"
    by (simp_all add: dom_inv_def)
  have "panes ?r1 = filter (\<lambda>(i, pn). tabId pn \<noteq> t) (panes r)"
    by (rule destroyAll_panes[OF wf])
  then have no: "\<forall>(i, t') \<in> set (tabOf ?r1). t' \<noteq> t" by (auto simp: tabOf_def)
  have "ainv (layout (paneContainer ?r2)) (tabOf ?r2) (tabIdCounter ?r2)"
    using ainv_remove_tab[OF a no] layout_filter_content[OF cont, of t]
    by (simp add: tabOf_def)
  then have i2: "dom_inv ?r2" using cont by (simp add: dom_inv_def)
  have "closeTab t r = ?r2 \<or> (\<exists>t'. closeTab t r = switchTab t' ?r2)"
    using True by (auto simp: closeTab_def Let_def split: list.splits)
  with i2 dom_inv_switchTab[OF i2] show ?thesis by auto
qed

lemma writeFirst_tabOf:
  "map (\<lambda>(i, pn). (i, tabId pn)) (writeFirst k x al) = map (\<lambda>(i, pn). (i, tabId pn)) al"
  by (induction al) auto

lemma dom_inv_handle_event: "dom_inv r \<Longrightarrow> dom_inv (handle_event ev r)"
proof (cases ev)
  case (TerminalData k d)
  assume "dom_inv r"
  then show ?thesis unfolding TerminalData
    by (simp add: terminal_data_def dom_inv_def tabOf_def writeFirst_tabOf)
next
  case (TerminalExit k x)
  assume "dom_inv r"
  then show ?thesis unfolding TerminalExit
    by (simp add: terminal_exit_def dom_inv_def tabOf_def writeFirst_tabOf split: option.splits)
qed

lemma dom_inv_focusDirection: "dom_inv r \<Longrightarrow> dom_inv (focusDirection e d r)"
  by (auto simp: focusDirection_def focusPane_def Let_def dom_inv_def tabOf_def
        split: option.splits)

lemma dom_inv_focusNextPane: "dom_inv r \<Longrightarrow> dom_inv (focusNextPane r)"
  by (auto simp: focusNextPane_def focusPane_def Let_def dom_inv_def tabOf_def
        split: option.splits)

lemma dom_inv_fire: "dom_inv r \<Longrightarrow> dom_inv (snd (fire e tm r))"
proof (cases tm)
  case (FitPane p k)
  assume "dom_inv r"
  then show ?thesis unfolding FitPane
    by (simp add: sendResize_def send_def dom_inv_def tabOf_def)
next
  case (RefitTab t)
  assume "dom_inv r"
  then show ?thesis unfolding RefitTab
    by (simp add: foldl_sendResize dom_inv_def tabOf_def)
next
  case (ExitClose p t)
  assume "dom_inv r"
  then show ?thesis unfolding ExitClose by (simp add: dom_inv_closePane)
qed

lemma createPane_fail:
  "createPane e t c dir w = (Inl err, w') \<Longrightarrow>
     paneContainer (rend w') = paneContainer (rend w) \<and> panes (rend w') = panes (rend w) \<and>
     tabIdCounter (rend w') = tabIdCounter (rend w)"
  by (auto simp: createPane_def Let_def flush_def split: prod.splits sum.splits)

lemma createPane_success:
  "createPane e t c dir w = (Inr n, w') \<Longrightarrow>
     n = paneIdCounter (rend w) + 1 \<and>
     paneContainer (rend w') = map (appendChild c (PaneEl n)) (paneContainer (rend w)) \<and>
     (\<exists>k. panes (rend w') =
        AList.update n \<lparr>paneId = n, tabId = t, terminalId = k, terminal = []\<rparr> (panes (rend w))) \<and>
     tabIdCounter (rend w') = tabIdCounter (rend w)"
  by (auto simp: createPane_def Let_def flush_def focusPane_def split: prod.splits sum.splits option.splits)

lemma tabOf_update:
  assumes "n \<notin> fst ` set (panes r)"
    and "panes r' = AList.update n \<lparr>paneId = n, tabId = t, terminalId = k, terminal = []\<rparr> (panes r)"
  shows "tabOf r' = tabOf r @ [(n, t)]"
  using assms by (simp add: tabOf_def update_fresh)

lemma world_inv_fresh:
  assumes "world_inv w"
  shows "paneIdCounter (rend w) + 1 \<notin> fst ` set (panes (rend w))"
    and "paneIdCounter (rend w) + 1 \<notin> set (concat (map paneIds (paneContainer (rend w))))"
    and "distinct (map fst (tabOf (rend w)))"
proof -
  from assms have r: "rinv (terminalIdCounter (mainp w)) (rend w)" by (simp add: world_inv_def)
  then show "paneIdCounter (rend w) + 1 \<notin> fst ` set (panes (rend w))"
    by (fastforce simp: rinv_def)
  from r show "paneIdCounter (rend w) + 1 \<notin> set (concat (map paneIds (paneContainer (rend w))))"
    by (fastforce simp: rinv_def domIds_def)
  have "map fst (tabOf (rend w)) = map fst (panes (rend w))"
    by (simp add: tabOf_def comp_def case_prod_unfold)
  then show "distinct (map fst (tabOf (rend w)))" using r by (simp add: rinv_def panes_wf_def)
qed

lemma flush_rend: "rend (flush w) = (rend w)\<lparr>outbox := []\<rparr>"
  by (simp add: flush_def)

lemma dom_inv_flush: "dom_inv (rend w) \<Longrightarrow> dom_inv (rend (flush w))"
  by (simp add: flush_rend dom_inv_def tabOf_def)

lemma getPaneCwd_dom: "dom_inv (rend w) \<Longrightarrow> dom_inv (rend (snd (getPaneCwd e p w)))"
  by (simp add: getPaneCwd_def Let_def dom_inv_flush split: option.splits)

lemma getFocusedPaneCwd_dom:
  "dom_inv (rend w) \<Longrightarrow> dom_inv (rend (snd (getFocusedPaneCwd e w)))"
  by (simp add: getFocusedPaneCwd_def getPaneCwd_dom split: option.splits)

lemma getPaneCwd_panes:
  "panes (rend (snd (getPaneCwd e p w))) = panes (rend w)"
  by (simp add: getPaneCwd_def Let_def flush_rend split: option.splits)

lemma splitPane_full:
  assumes inv: "full_inv w"
  shows "dom_inv (rend (snd (splitPane e p d w)))"
proof (cases "map_of (panes (rend w)) p")
  case None
  then show ?thesis using inv by (simp add: splitPane_def full_inv_def)
next
  case (Some pn)
  obtain q w1 where g: "getPaneCwd e p w = (q, w1)" by (cases "getPaneCwd e p w")
  have wi1: "world_inv w1" using getPaneCwd_inv[of w e p] inv g by (simp add: full_inv_def)
  have di1: "dom_inv (rend w1)" using getPaneCwd_dom[of w e p] inv g by (simp add: full_inv_def)
  have pn1: "map_of (panes (rend w1)) p = Some pn"
    using getPaneCwd_panes[of e p w] g Some by simp
  show ?thesis
  proof (cases "\<exists>c \<in> set (paneContainer (rend w1)). attached p c")
    case False
    then show ?thesis using Some g di1 by (simp add: splitPane_def)
  next
    case True
    let ?h = "d = utf16 ''vertical''"
    let ?w2 = "w1\<lparr>rend := (rend w1)\<lparr>paneContainer :=
        map (wrapPane p ?h) (paneContainer (rend w1))\<rparr>\<rparr>"
    have cont: "\<forall>x \<in> set (paneContainer (rend w1)). isContent x"
      and a: "ainv (layout (paneContainer (rend w1))) (tabOf (rend w1)) (tabIdCounter (rend w1))"
      using di1 by (simp_all add: dom_inv_def)
    obtain res w3 where cp: "createPane e (tabId pn) (SplitContainerOf p) q ?w2 = (res, w3)"
      by (cases "createPane e (tabId pn) (SplitContainerOf p) q ?w2")
    have d3: "dom_inv (rend w3)"
    proof (cases res)
      case (Inl err)
      from createPane_fail[OF cp[unfolded Inl]]
      have "paneContainer (rend w3) = map (wrapPane p ?h) (paneContainer (rend w1))"
        "panes (rend w3) = panes (rend w1)" "tabIdCounter (rend w3) = tabIdCounter (rend w1)"
        by simp_all
      then show ?thesis
        using layout_wrap[OF cont, of p ?h] a by (simp add: dom_inv_def tabOf_def)
    next
      case (Inr n)
      from createPane_success[OF cp[unfolded Inr]]
      obtain k where n: "n = paneIdCounter (rend w1) + 1"
        and dm: "paneContainer (rend w3) =
          map (appendChild (SplitContainerOf p) (PaneEl n)) (map (wrapPane p ?h) (paneContainer (rend w1)))"
        and ps: "panes (rend w3) = AList.update n
          \<lparr>paneId = n, tabId = tabId pn, terminalId = k, terminal = []\<rparr> (panes (rend w1))"
        and tc: "tabIdCounter (rend w3) = tabIdCounter (rend w1)"
        by auto
      note fr = world_inv_fresh[OF wi1, folded n]
      have tb: "tabOf (rend w3) = tabOf (rend w1) @ [(n, tabId pn)]"
        using tabOf_update[OF fr(1) ps] .
      have pin: "(p, tabId pn) \<in> set (tabOf (rend w1))"
        using map_of_SomeD[OF pn1] by (force simp: tabOf_def)
      have nf: "n \<notin> set (concat (map snd (layout (paneContainer (rend w1)))))"
        using fr(2) by (simp add: layout_ids)
      note l = layout_split[OF cont, of p n ?h]
      show ?thesis
        unfolding dom_inv_def dm tb tc
        using l ainv_split[OF a fr(3) pin nf] by simp
    qed
    have "snd (splitPane e p d w) = w3 \<or>
          snd (splitPane e p d w) = w3\<lparr>rend := refitAllPanesInTab (tabId pn) (rend w3)\<rparr>"
      using Some g True cp by (auto simp: splitPane_def Let_def split: sum.splits)
    moreover have "dom_inv (refitAllPanesInTab (tabId pn) (rend w3))"
      using d3 by (simp add: refitAllPanesInTab_def dom_inv_def tabOf_def)
    ultimately show ?thesis using d3 by auto
  qed
qed

lemma createTab_full:
  assumes inv: "full_inv w"
  shows "dom_inv (rend (snd (createTab e w)))"
proof -
  obtain q w1 where g: "getFocusedPaneCwd e w = (q, w1)" by (cases "getFocusedPaneCwd e w")
  have wi1: "world_inv w1" using getFocusedPaneCwd_inv[of w e] inv g by (simp add: full_inv_def)
  have di1: "dom_inv (rend w1)" using getFocusedPaneCwd_dom[of w e] inv g by (simp add: full_inv_def)
  let ?t = "tabIdCounter (rend w1) + 1"
  let ?r2 = "(rend w1)\<lparr>tabIdCounter := ?t,
      paneContainer := paneContainer (rend w1) @ [Container (TabContent ?t) []],
      tabs := (if ?t \<in> set (tabs (rend w1)) then tabs (rend w1) else tabs (rend w1) @ [?t])\<rparr>"
  let ?w2 = "w1\<lparr>rend := ?r2\<rparr>"
  have cont1: "\<forall>x \<in> set (paneContainer (rend w1)). isContent x"
    and a1: "ainv (layout (paneContainer (rend w1))) (tabOf (rend w1)) (tabIdCounter (rend w1))"
    using di1 by (simp_all add: dom_inv_def)
  have cont: "\<forall>x \<in> set (paneContainer ?r2). isContent x" using cont1 by simp
  have lay2: "layout (paneContainer ?r2) = layout (paneContainer (rend w1)) @ [(?t, [])]"
    by (simp add: layout_def)
  have a: "ainv (layout (paneContainer ?r2)) (tabOf ?r2) ?t"
    unfolding lay2 using ainv_add_tab[OF a1] by (simp add: tabOf_def)
  have "sub_panes ?r2 (rend w1)"
    using sub_panes_refl[of "rend w1"] by (simp add: sub_panes_def domIds_def)
  from world_inv_rend[OF wi1 this] have wi2: "world_inv ?w2" .
  obtain res w3 where cp: "createPane e ?t (ContentElement ?t) q ?w2 = (res, w3)"
    by (cases "createPane e ?t (ContentElement ?t) q ?w2")
  have d3: "dom_inv (rend w3)"
  proof (cases res)
    case (Inl err)
    from createPane_fail[OF cp[unfolded Inl]]
    have "paneContainer (rend w3) = paneContainer ?r2"
      "panes (rend w3) = panes ?r2" "tabIdCounter (rend w3) = ?t"
      by simp_all
    then show ?thesis using cont a by (simp add: dom_inv_def tabOf_def)
  next
    case (Inr n)
    from createPane_success[OF cp[unfolded Inr]]
    obtain k where n: "n = paneIdCounter (rend ?w2) + 1"
      and dm: "paneContainer (rend w3) =
        map (appendChild (ContentElement ?t) (PaneEl n)) (paneContainer ?r2)"
      and ps: "panes (rend w3) = AList.update n
        \<lparr>paneId = n, tabId = ?t, terminalId = k, terminal = []\<rparr> (panes (rend ?w2))"
      and tc: "tabIdCounter (rend w3) = ?t"
      by auto
    note fr = world_inv_fresh[OF wi2, folded n]
    have tb: "tabOf (rend w3) = tabOf ?r2 @ [(n, ?t)]"
      using tabOf_update[OF fr(1) ps] by simp
    have tin: "?t \<in> fst ` set (layout (paneContainer ?r2))" unfolding lay2 by simp
    have nf: "n \<notin> set (concat (map snd (layout (paneContainer ?r2))))"
      using fr(2) by (simp only: layout_ids) simp
    note l = layout_appendChild[OF cont, of ?t n]
    show ?thesis
      unfolding dom_inv_def dm tb tc
      using l ainv_add_pane[OF a tin nf] by simp
  qed
  have "snd (createTab e w) = w3 \<or> snd (createTab e w) = w3\<lparr>rend := switchTab ?t (rend w3)\<rparr>"
    using g cp by (auto simp: createTab_def Let_def split: sum.splits)
  with d3 dom_inv_switchTab[OF d3] show ?thesis by auto
qed

lemma full_inv_init: "full_inv (init_world wc)"
  by (simp add: full_inv_def world_inv_init)
     (simp add: dom_inv_def ainv_def layout_def tabOf_def init_world_def init_renderer_def)

lemma act_full: "full_inv w \<Longrightarrow> full_inv (act e a w)"
proof -
  assume inv: "full_inv w"
  then have wi: "world_inv w" and di: "dom_inv (rend w)" by (simp_all add: full_inv_def)
  have wf: "panes_wf (rend w)" using wi by (simp add: world_inv_def rinv_def)
  have "dom_inv (rend (act e a w))"
  proof (cases a)
    case CreateTab
    then show ?thesis using createTab_full[OF inv] by simp
  next
    case (SplitPane p d)
    then show ?thesis using splitPane_full[OF inv] by simp
  next
    case (CloseTab t)
    then show ?thesis using dom_inv_closeTab[OF di wf] by simp
  next
    case (MainStep op)
    then show ?thesis using di by simp
  qed (simp_all add: di dom_inv_closePane dom_inv_switchTab dom_inv_focusDirection
         dom_inv_focusNextPane dom_inv_handle_event dom_inv_fire dom_inv_flush)
  with act_inv[OF wi] show ?thesis by (simp add: full_inv_def)
qed

lemma reachable_full: "full_inv (acts as (init_world wc))"
proof -
  have "full_inv w \<Longrightarrow> full_inv (acts as w)" for w
    by (induction as arbitrary: w) (auto simp: act_full)
  then show ?thesis using full_inv_init by blast
qed

lemma full_inv_attached:
  assumes "full_inv w" and "map_of (panes (rend w)) p = Some pn"
  shows "\<exists>c \<in> set (paneContainer (rend w)). attached p c"
proof -
  from assms(1) have a: "ainv (layout (paneContainer (rend w))) (tabOf (rend w)) (tabIdCounter (rend w))"
    by (simp add: full_inv_def dom_inv_def)
  have "(p, tabId pn) \<in> set (tabOf (rend w))"
    using map_of_SomeD[OF assms(2)] by (force simp: tabOf_def)
  with a obtain ids where "(tabId pn, ids) \<in> set (layout (paneContainer (rend w)))" "p \<in> set ids"
    by (fastforce simp: ainv_def)
  then obtain c where "c \<in> set (paneContainer (rend w))" "p \<in> set (paneIds c)"
    by (auto simp: layout_def)
  then show ?thesis using attached_paneIds by blast
qed

end
